theory Spec2Isabelle
  imports Main
begin

section \<open>Constants and basic types (gmk-claude-opus-4.1-08052025.cpp, first program)\<close>

definition BOARD_SIZE :: int where
  "BOARD_SIZE = 15"

definition WIN_LENGTH :: int where
  "WIN_LENGTH = 5"

definition INFINITY_SCORE :: int where
  "INFINITY_SCORE = 1000000"

definition WIN_SCORE :: int where
  "WIN_SCORE = 100000"

datatype Stone = EMPTY | BLACK | WHITE

datatype GameStatus = ONGOING | BLACK_WIN | WHITE_WIN | DRAW

text \<open>Direction vectors: horizontal, vertical, the two diagonals.\<close>

definition DIRECTIONS :: "(int \<times> int) list" where
  "DIRECTIONS = [(0, 1), (1, 0), (1, 1), (1, -1)]"

datatype Position = Position (row: int) (col: int)

text \<open>
  A two-dimensional array is a list of rows. \<open>std::array<std::array<Stone, 15>, 15>\<close>
  always has 15 rows of 15 cells; \<open>wf_grid\<close> says so of a list of lists.
\<close>

type_synonym 'a grid = "'a list list"

definition wf_grid :: "'a grid \<Rightarrow> bool" where
  "wf_grid g \<longleftrightarrow> length g = 15 \<and> list_all (\<lambda>r. length r = 15) g"

definition in_range :: "int \<Rightarrow> int \<Rightarrow> bool" where
  "in_range r c \<longleftrightarrow> r \<ge> 0 \<and> r < BOARD_SIZE \<and> c \<ge> 0 \<and> c < BOARD_SIZE"

text \<open>The read \<open>g[r][c]\<close> and the write \<open>g[r][c] = v\<close> of the source. Every read and
  write of the source that the theorems below rely on is at an index inside the array;
  outside it the C++ is undefined, and the write of the model leaves the grid alone.\<close>

definition cell :: "'a grid \<Rightarrow> int \<Rightarrow> int \<Rightarrow> 'a" where
  "cell g r c = g ! nat r ! nat c"

definition set_cell :: "'a grid \<Rightarrow> int \<Rightarrow> int \<Rightarrow> 'a \<Rightarrow> 'a grid" where
  "set_cell g r c v =
     (if r \<ge> 0 \<and> c \<ge> 0 then g[nat r := (g ! nat r)[nat c := v]] else g)"

section \<open>class Board\<close>

record Board =
  board :: "Stone grid"
  moveHistory :: "Position list"
  moveCount :: int

text \<open>The constructor \<open>Board()\<close>: every cell EMPTY, no history, counter 0.\<close>

definition new_Board :: Board where
  "new_Board = \<lparr> board = replicate 15 (replicate 15 EMPTY), moveHistory = [], moveCount = 0 \<rparr>"

definition getStone :: "Board \<Rightarrow> int \<Rightarrow> int \<Rightarrow> Stone" where
  "getStone b r c =
     (if r < 0 \<or> r \<ge> BOARD_SIZE \<or> c < 0 \<or> c \<ge> BOARD_SIZE then EMPTY
      else cell (board b) r c)"

definition isValidMove :: "Board \<Rightarrow> int \<Rightarrow> int \<Rightarrow> bool" where
  "isValidMove b r c \<longleftrightarrow>
     r \<ge> 0 \<and> r < BOARD_SIZE \<and> c \<ge> 0 \<and> c < BOARD_SIZE \<and> cell (board b) r c = EMPTY"

text \<open>\<open>placeStone\<close> returns its bool together with the board it leaves.\<close>

definition placeStone :: "int \<Rightarrow> int \<Rightarrow> Stone \<Rightarrow> Board \<Rightarrow> bool \<times> Board" where
  "placeStone r c stone b =
     (if \<not> isValidMove b r c then (False, b)
      else (True, b\<lparr> board := set_cell (board b) r c stone,
                     moveHistory := moveHistory b @ [Position r c],
                     moveCount := moveCount b + 1 \<rparr>))"

text \<open>\<open>removeStone\<close> checks neither its coordinates nor the history entry it pops.\<close>

definition removeStone :: "int \<Rightarrow> int \<Rightarrow> Board \<Rightarrow> Board" where
  "removeStone r c b =
     (let b1 = b\<lparr> board := set_cell (board b) r c EMPTY \<rparr>
      in if moveHistory b1 \<noteq> []
         then b1\<lparr> moveHistory := butlast (moveHistory b1), moveCount := moveCount b1 - 1 \<rparr>
         else b1)"

definition isFull :: "Board \<Rightarrow> bool" where
  "isFull b \<longleftrightarrow> moveCount b \<ge> BOARD_SIZE * BOARD_SIZE"

text \<open>
  \<open>getRelevantMoves\<close>: the four nested loops run over \<open>r\<close>, \<open>c\<close>, \<open>dr\<close>, \<open>dc\<close> in this
  order; the loop state is the vector \<open>moves\<close> and the array \<open>considered\<close>.
\<close>

definition consider_cell ::
  "Board \<Rightarrow> int \<Rightarrow> int \<Rightarrow> Position list \<times> bool grid \<Rightarrow> Position list \<times> bool grid" where
  "consider_cell b nr nc st =
     (case st of (moves, considered) \<Rightarrow>
        if isValidMove b nr nc \<and> \<not> cell considered nr nc
        then (moves @ [Position nr nc], set_cell considered nr nc True)
        else (moves, considered))"

definition scan_around ::
  "Board \<Rightarrow> int \<Rightarrow> int \<Rightarrow> int \<Rightarrow> Position list \<times> bool grid \<Rightarrow> Position list \<times> bool grid" where
  "scan_around b range' r c st =
     fold (\<lambda>dr. fold (\<lambda>dc. consider_cell b (r + dr) (c + dc)) [- range'..range'])
       [- range'..range'] st"

definition scan_stone ::
  "Board \<Rightarrow> int \<Rightarrow> int \<Rightarrow> int \<Rightarrow> Position list \<times> bool grid \<Rightarrow> Position list \<times> bool grid" where
  "scan_stone b range' r c st =
     (if cell (board b) r c \<noteq> EMPTY then scan_around b range' r c st else st)"

definition getRelevantMoves :: "Board \<Rightarrow> int \<Rightarrow> Position list" where
  "getRelevantMoves b range' =
     (if moveCount b = 0 then [Position (BOARD_SIZE div 2) (BOARD_SIZE div 2)]
      else fst (fold (\<lambda>r. fold (\<lambda>c. scan_stone b range' r c) [0..BOARD_SIZE - 1])
                  [0..BOARD_SIZE - 1]
                  ([], replicate 15 (replicate 15 False))))"

text \<open>
  \<open>checkWin\<close> scans the whole board. The innermost loop counts from the cell in the
  positive direction only, for \<open>i = 1 .. WIN_LENGTH - 1\<close>, and breaks at the first cell
  that is not \<open>stone\<close>. The first five found, in scan order, is returned.
\<close>

fun count_positive ::
  "Board \<Rightarrow> int \<Rightarrow> int \<Rightarrow> int \<Rightarrow> int \<Rightarrow> Stone \<Rightarrow> int list \<Rightarrow> int \<Rightarrow> int" where
  "count_positive b r c dr dc stone [] count = count"
| "count_positive b r c dr dc stone (i # is) count =
     (if getStone b (r + dr * i) (c + dc * i) \<noteq> stone then count
      else count_positive b r c dr dc stone is (count + 1))"

text \<open>A loop that returns from inside its body: the first iteration that returns decides.\<close>

fun first_return :: "('a \<Rightarrow> 'b option) \<Rightarrow> 'a list \<Rightarrow> 'b option" where
  "first_return f [] = None"
| "first_return f (x # xs) = (case f x of Some y \<Rightarrow> Some y | None \<Rightarrow> first_return f xs)"

definition checkWin_at :: "Board \<Rightarrow> int \<Rightarrow> int \<Rightarrow> GameStatus option" where
  "checkWin_at b r c =
     (let stone = cell (board b) r c in
      if stone = EMPTY then None
      else first_return
             (\<lambda>(dr, dc).
                if count_positive b r c dr dc stone [1..WIN_LENGTH - 1] 1 \<ge> WIN_LENGTH
                then Some (if stone = BLACK then BLACK_WIN else WHITE_WIN)
                else None)
             DIRECTIONS)"

definition checkWin :: "Board \<Rightarrow> GameStatus" where
  "checkWin b =
     (case first_return (\<lambda>r. first_return (\<lambda>c. checkWin_at b r c) [0..BOARD_SIZE - 1])
             [0..BOARD_SIZE - 1] of
        Some status \<Rightarrow> status
      | None \<Rightarrow> if isFull b then DRAW else ONGOING)"

section \<open>class PatternEvaluator\<close>

definition FIVE :: int where "FIVE = 100000"
definition OPEN_FOUR :: int where "OPEN_FOUR = 10000"
definition BLOCKED_FOUR :: int where "BLOCKED_FOUR = 1000"
definition OPEN_THREE :: int where "OPEN_THREE = 1000"
definition BLOCKED_THREE :: int where "BLOCKED_THREE = 100"
definition OPEN_TWO :: int where "OPEN_TWO = 100"
definition BLOCKED_TWO :: int where "BLOCKED_TWO = 10"
definition ONE :: int where "ONE = 1"

record LinePattern =
  consecutive :: int
  openEnds :: int
  gaps :: int

text \<open>
  The inner loop of \<open>analyzeLine\<close> for one \<open>dir\<close>, over \<open>i = 1 .. WIN_LENGTH - 1\<close>. Its
  state is \<open>(count, blocked, gapCount, pattern)\<close>; a \<open>break\<close> returns the state.
\<close>

fun analyze_steps ::
  "Board \<Rightarrow> Position \<Rightarrow> int \<Rightarrow> int \<Rightarrow> Stone \<Rightarrow> int \<Rightarrow> int list \<Rightarrow>
   int \<times> bool \<times> int \<times> LinePattern \<Rightarrow> int \<times> bool \<times> int \<times> LinePattern" where
  "analyze_steps b start dr dc stone dir [] st = st"
| "analyze_steps b start dr dc stone dir (i # is) (count, blocked, gapCount, pattern) =
     (let r = row start + dr * i * dir;
          c = col start + dc * i * dir;
          current = getStone b r c
      in if current = stone then
           analyze_steps b start dr dc stone dir is
             (count + 1, blocked, 0,
              if gapCount > 0 then pattern\<lparr> gaps := gaps pattern + 1 \<rparr> else pattern)
         else if current = EMPTY then
           (if count > 0 \<and> gapCount = 0 then
              analyze_steps b start dr dc stone dir is (count, blocked, gapCount + 1, pattern)
            else
              (count, blocked, gapCount,
               if \<not> blocked then pattern\<lparr> openEnds := openEnds pattern + 1 \<rparr> else pattern))
         else (count, True, gapCount, pattern))"

definition analyze_dir ::
  "Board \<Rightarrow> Position \<Rightarrow> int \<Rightarrow> int \<Rightarrow> Stone \<Rightarrow> int \<Rightarrow> LinePattern \<Rightarrow> LinePattern" where
  "analyze_dir b start dr dc stone dir pattern =
     (case analyze_steps b start dr dc stone dir [1..WIN_LENGTH - 1] (0, False, 0, pattern) of
        (count, blocked, gapCount, pattern') \<Rightarrow>
          pattern'\<lparr> consecutive := consecutive pattern' + count \<rparr>)"

definition analyzeLine :: "Board \<Rightarrow> Position \<Rightarrow> int \<Rightarrow> int \<Rightarrow> Stone \<Rightarrow> LinePattern" where
  "analyzeLine b start dr dc stone =
     fold (analyze_dir b start dr dc stone) [- 1, 1]
       \<lparr> consecutive = 1, openEnds = 0, gaps = 0 \<rparr>"

definition getPatternScore :: "LinePattern \<Rightarrow> int" where
  "getPatternScore pattern =
     (if consecutive pattern \<ge> 5 then FIVE
      else if consecutive pattern = 4 \<and> openEnds pattern = 2 then OPEN_FOUR
      else if consecutive pattern = 4 \<and> openEnds pattern = 1 then BLOCKED_FOUR
      else if consecutive pattern = 3 \<and> openEnds pattern = 2 then OPEN_THREE
      else if consecutive pattern = 3 \<and> openEnds pattern = 1 then BLOCKED_THREE
      else if consecutive pattern = 2 \<and> openEnds pattern = 2 then OPEN_TWO
      else if consecutive pattern = 2 \<and> openEnds pattern = 1 then BLOCKED_TWO
      else if consecutive pattern = 1 \<and> openEnds pattern > 0 then ONE
      else 0)"

text \<open>
  The body of the two cell loops of \<open>evaluatePosition\<close>, adding to \<open>score\<close>. A direction
  is analysed only when \<open>dr == 0 || (dr == 1 && dc >= 0)\<close>.
\<close>

definition evaluate_cell :: "Board \<Rightarrow> Stone \<Rightarrow> int \<Rightarrow> int \<Rightarrow> int \<Rightarrow> int" where
  "evaluate_cell b stone r c score =
     (let current = getStone b r c in
      if current = EMPTY then score
      else
        let pos = Position r c;
            isMyStone = (current = stone);
            multiplier = (if isMyStone then 1 else - 1);
            score1 = fold (\<lambda>(dr, dc) sc.
                        if dr = 0 \<or> (dr = 1 \<and> dc \<ge> 0)
                        then sc + multiplier * getPatternScore (analyzeLine b pos dr dc current)
                        else sc)
                       DIRECTIONS score;
            centerDist = \<bar>r - BOARD_SIZE div 2\<bar> + \<bar>c - BOARD_SIZE div 2\<bar>
        in score1 + multiplier * (BOARD_SIZE - centerDist))"

definition evaluatePosition :: "Board \<Rightarrow> Stone \<Rightarrow> int" where
  "evaluatePosition b stone =
     fold (\<lambda>r. fold (\<lambda>c. evaluate_cell b stone r c) [0..BOARD_SIZE - 1]) [0..BOARD_SIZE - 1] 0"

text \<open>\<open>isThreat\<close> works on a copy of the board, so the caller's board is not touched.\<close>

definition isThreat :: "Board \<Rightarrow> Position \<Rightarrow> Stone \<Rightarrow> bool" where
  "isThreat b pos stone =
     (let tempBoard = snd (placeStone (row pos) (col pos) stone b) in
      case first_return
             (\<lambda>(dr, dc).
                let pattern = analyzeLine tempBoard pos dr dc stone in
                if consecutive pattern \<ge> 4 \<or> (consecutive pattern = 3 \<and> openEnds pattern = 2)
                then Some True else None)
             DIRECTIONS of
        Some t \<Rightarrow> t
      | None \<Rightarrow> False)"

section \<open>class GomokuAI\<close>

text \<open>
  The fields of the class but the generator \<open>rng\<close>, which is seeded from the clock. The
  numbers \<open>rng()\<close> returns during one call of \<open>getBestMove\<close> are an argument of the
  model: \<open>draws k\<close> is the value of the \<open>k\<close>-th call.
\<close>

record GomokuAI =
  myStone :: Stone
  opponentStone :: Stone
  maxDepth :: int

definition new_GomokuAI :: "Stone \<Rightarrow> int \<Rightarrow> GomokuAI" where
  "new_GomokuAI stone depth =
     \<lparr> myStone = stone,
       opponentStone = (if stone = BLACK then WHITE else BLACK),
       maxDepth = depth \<rparr>"

text \<open>The body of the scoring loop of \<open>orderMoves\<close>: the score of one move and the board
  after the stone is placed and removed again.\<close>

definition score_move :: "Board \<Rightarrow> Stone \<Rightarrow> Position \<Rightarrow> int \<times> Board" where
  "score_move b stone move =
     (let b1 = snd (placeStone (row move) (col move) stone b);
          score =
            (if checkWin b1 \<noteq> ONGOING then INFINITY_SCORE
             else
               let sc = evaluatePosition b1 stone;
                   opponent = (if stone = BLACK then WHITE else BLACK)
               in if isThreat b1 move opponent then sc + 5000 else sc);
          b2 = removeStone (row move) (col move) b1
      in (score, b2))"

fun score_moves ::
  "Stone \<Rightarrow> Position list \<Rightarrow> (Position \<times> int) list \<Rightarrow> Board \<Rightarrow> (Position \<times> int) list \<times> Board" where
  "score_moves stone [] scoredMoves b = (scoredMoves, b)"
| "score_moves stone (move # moves) scoredMoves b =
     (case score_move b stone move of
        (score, b') \<Rightarrow> score_moves stone moves (scoredMoves @ [(move, score)]) b')"

text \<open>
  \<open>std::sort\<close> with the comparison \<open>a.score > b.score\<close>: descending by score. The
  standard leaves the order of moves of equal score open; the model keeps them in their
  order (\<open>sort_key\<close> is stable). Then at most 10 moves are kept.
\<close>

definition orderMoves :: "Board \<Rightarrow> Position list \<Rightarrow> Stone \<Rightarrow> Position list \<times> Board" where
  "orderMoves b moves stone =
     (case score_moves stone moves [] b of
        (scoredMoves, b') \<Rightarrow>
          (take 10 (map fst (sort_key (\<lambda>ms. - snd ms) scoredMoves)), b'))"

text \<open>
  \<open>minimax\<close> and its two loops over the ordered moves. Each returns its value together
  with the board it leaves. \<open>max_loop\<close> and \<open>min_loop\<close> carry \<open>alpha\<close>, \<open>beta\<close> and the
  best value so far; the \<open>break\<close> returns.
\<close>

function minimax :: "GomokuAI \<Rightarrow> Board \<Rightarrow> int \<Rightarrow> int \<Rightarrow> int \<Rightarrow> bool \<Rightarrow> int \<times> Board"
  and max_loop :: "GomokuAI \<Rightarrow> Position list \<Rightarrow> int \<Rightarrow> int \<Rightarrow> int \<Rightarrow> int \<Rightarrow> Board \<Rightarrow> int \<times> Board"
  and min_loop :: "GomokuAI \<Rightarrow> Position list \<Rightarrow> int \<Rightarrow> int \<Rightarrow> int \<Rightarrow> int \<Rightarrow> Board \<Rightarrow> int \<times> Board"
  where
  "minimax ai b depth alpha beta isMaximizing =
     (let status = checkWin b in
      if status \<noteq> ONGOING then
        (if status = DRAW then (0, b)
         else
           let iWon = (status = BLACK_WIN \<and> myStone ai = BLACK) \<or>
                      (status = WHITE_WIN \<and> myStone ai = WHITE)
           in (if iWon then WIN_SCORE - depth else - WIN_SCORE + depth, b))
      else if depth \<ge> maxDepth ai then (evaluatePosition b (myStone ai), b)
      else
        let moves = getRelevantMoves b 2 in
        if moves = [] then (0, b)
        else
          case orderMoves b moves (if isMaximizing then myStone ai else opponentStone ai) of
            (moves', b') \<Rightarrow>
              if isMaximizing then max_loop ai moves' depth alpha beta (- INFINITY_SCORE) b'
              else min_loop ai moves' depth alpha beta INFINITY_SCORE b')"
| "max_loop ai [] depth alpha beta maxEval b = (maxEval, b)"
| "max_loop ai (move # moves) depth alpha beta maxEval b =
     (case minimax ai (snd (placeStone (row move) (col move) (myStone ai) b))
             (depth + 1) alpha beta False of
        (eval, b') \<Rightarrow>
          let b'' = removeStone (row move) (col move) b';
              maxEval' = max maxEval eval;
              alpha' = max alpha eval
          in if beta \<le> alpha' then (maxEval', b'')
             else max_loop ai moves depth alpha' beta maxEval' b'')"
| "min_loop ai [] depth alpha beta minEval b = (minEval, b)"
| "min_loop ai (move # moves) depth alpha beta minEval b =
     (case minimax ai (snd (placeStone (row move) (col move) (opponentStone ai) b))
             (depth + 1) alpha beta True of
        (eval, b') \<Rightarrow>
          let b'' = removeStone (row move) (col move) b';
              minEval' = min minEval eval;
              beta' = min beta eval
          in if beta' \<le> alpha then (minEval', b'')
             else min_loop ai moves depth alpha beta' minEval' b'')"
  by pat_completeness auto
termination
  by (relation "inv_image (less_than <*lex*> less_than)
        (\<lambda>x. case x of
           Inl (ai, b, depth, alpha, beta, isMax) \<Rightarrow> (2 * nat (maxDepth ai - depth), 0)
         | Inr (Inl (ai, moves, depth, alpha, beta, best, b)) \<Rightarrow>
             (2 * nat (maxDepth ai - (depth + 1)) + 1, length moves)
         | Inr (Inr (ai, moves, depth, alpha, beta, best, b)) \<Rightarrow>
             (2 * nat (maxDepth ai - (depth + 1)) + 1, length moves))")
     auto

declare minimax.simps [simp del]

text \<open>The first loop of \<open>getBestMove\<close>: the first move, in the order of the candidates,
  that wins for \<open>myStone\<close> or, failing that at this move, wins for \<open>opponentStone\<close>.\<close>

fun win_or_block :: "GomokuAI \<Rightarrow> Position list \<Rightarrow> Board \<Rightarrow> Position option \<times> Board" where
  "win_or_block ai [] b = (None, b)"
| "win_or_block ai (move # moves) b =
     (let b1 = snd (placeStone (row move) (col move) (myStone ai) b) in
      if checkWin b1 \<noteq> ONGOING then (Some move, removeStone (row move) (col move) b1)
      else
        let b2 = removeStone (row move) (col move) b1;
            b3 = snd (placeStone (row move) (col move) (opponentStone ai) b2)
        in if checkWin b3 \<noteq> ONGOING then (Some move, removeStone (row move) (col move) b3)
           else win_or_block ai moves (removeStone (row move) (col move) b3))"

text \<open>
  The last loop of \<open>getBestMove\<close>. \<open>(rng() % 10) - 5\<close> is computed in an unsigned type and
  wraps below zero, and adding it to the \<open>int\<close> score wraps back: the sum is the score
  plus a number from \<open>-5\<close> to \<open>4\<close>.
\<close>

fun root_loop ::
  "GomokuAI \<Rightarrow> (nat \<Rightarrow> nat) \<Rightarrow> nat \<Rightarrow> Position list \<Rightarrow> Position \<Rightarrow> int \<Rightarrow> Board \<Rightarrow>
   Position \<times> Board" where
  "root_loop ai draws k [] bestMove bestScore b = (bestMove, b)"
| "root_loop ai draws k (move # moves) bestMove bestScore b =
     (case minimax ai (snd (placeStone (row move) (col move) (myStone ai) b))
             1 (- INFINITY_SCORE) INFINITY_SCORE False of
        (score0, b') \<Rightarrow>
          let b'' = removeStone (row move) (col move) b';
              score = score0 + (int (draws k mod 10) - 5)
          in if score > bestScore then root_loop ai draws (k + 1) moves move score b''
             else root_loop ai draws (k + 1) moves bestMove bestScore b'')"

definition getBestMove :: "GomokuAI \<Rightarrow> (nat \<Rightarrow> nat) \<Rightarrow> Board \<Rightarrow> Position \<times> Board" where
  "getBestMove ai draws b =
     (let moves = getRelevantMoves b 2 in
      if moves = [] then (Position (BOARD_SIZE div 2) (BOARD_SIZE div 2), b)
      else
        case win_or_block ai moves b of
          (Some move, b') \<Rightarrow> (move, b')
        | (None, b') \<Rightarrow>
            (case orderMoves b' moves (myStone ai) of
               (moves', b'') \<Rightarrow> root_loop ai draws 0 moves' (hd moves) (- INFINITY_SCORE) b''))"

section \<open>Grid lemmas\<close>

lemma wf_grid_row: "wf_grid g \<Longrightarrow> n < 15 \<Longrightarrow> length (g ! n) = 15"
  by (simp add: wf_grid_def list_all_length)

lemma wf_grid_replicate: "wf_grid (replicate 15 (replicate 15 v))"
  by (simp add: wf_grid_def list_all_length)

lemma list_update_outside: "\<not> n < length xs \<Longrightarrow> xs[n := x] = xs"
  by (simp add: list_update_beyond)

lemma wf_grid_set_cell: "wf_grid g \<Longrightarrow> wf_grid (set_cell g r c v)"
proof -
  assume wf: "wf_grid g"
  have "length (g[nat r := (g ! nat r)[nat c := v]] ! n) = 15" if "n < 15" for n
  proof (cases "n = nat r")
    case True
    with wf that show ?thesis by (simp add: wf_grid_def list_all_length)
  next
    case False
    with wf that show ?thesis by (simp add: wf_grid_def list_all_length)
  qed
  with wf show ?thesis
    by (simp add: wf_grid_def set_cell_def list_all_length)
qed

lemma cell_set_cell_same:
  assumes "wf_grid g" and "in_range r c"
  shows "cell (set_cell g r c v) r c = v"
proof -
  from assms have r: "nat r < length g" and c: "nat c < length (g ! nat r)"
    by (auto simp: in_range_def BOARD_SIZE_def wf_grid_def list_all_length)
  from assms(2) have "r \<ge> 0 \<and> c \<ge> 0"
    by (simp add: in_range_def)
  with r c show ?thesis
    by (simp add: cell_def set_cell_def)
qed

lemma cell_set_cell_other:
  assumes "r \<ge> 0" and "c \<ge> 0" and "r' \<ge> 0" and "c' \<ge> 0" and "(r', c') \<noteq> (r, c)"
  shows "cell (set_cell g r c v) r' c' = cell g r' c'"
proof (cases "nat r < length g")
  case False
  then have "g[nat r := (g ! nat r)[nat c := v]] = g" by (rule list_update_outside)
  then show ?thesis by (simp add: cell_def set_cell_def)
next
  case True
  show ?thesis
  proof (cases "r' = r")
    case False
    with assms have "nat r' \<noteq> nat r" by simp
    with assms show ?thesis by (simp add: cell_def set_cell_def)
  next
    case same: True
    with assms have "nat c' \<noteq> nat c" by simp
    with assms True same show ?thesis by (simp add: cell_def set_cell_def)
  qed
qed

lemma set_cell_set_cell: "set_cell (set_cell g r c v) r c w = set_cell g r c w"
  by (cases "nat r < length g") (simp_all add: set_cell_def list_update_outside)

lemma set_cell_same: "cell g r c = v \<Longrightarrow> set_cell g r c v = g"
proof (cases "nat r < length g")
  case False
  then show ?thesis by (simp add: set_cell_def list_update_outside)
next
  case r: True
  assume v: "cell g r c = v"
  show ?thesis
  proof (cases "nat c < length (g ! nat r)")
    case False
    then have "(g ! nat r)[nat c := v] = g ! nat r" by (rule list_update_outside)
    with r show ?thesis by (simp add: set_cell_def)
  next
    case True
    with r v have "(g ! nat r)[nat c := v] = g ! nat r"
      by (simp add: cell_def list_update_same_conv)
    with r show ?thesis by (simp add: set_cell_def)
  qed
qed

section \<open>placeStone and removeStone\<close>

lemma placeStone_valid:
  "isValidMove b r c \<Longrightarrow>
   placeStone r c stone b =
     (True, b\<lparr> board := set_cell (board b) r c stone,
                 moveHistory := moveHistory b @ [Position r c],
                 moveCount := moveCount b + 1 \<rparr>)"
  by (simp add: placeStone_def)

lemma placeStone_invalid: "\<not> isValidMove b r c \<Longrightarrow> placeStone r c stone b = (False, b)"
  by (simp add: placeStone_def)

lemma removeStone_placeStone:
  assumes "isValidMove b r c"
  shows "removeStone r c (snd (placeStone r c stone b)) = b"
proof -
  from assms have "cell (board b) r c = EMPTY"
    by (simp add: isValidMove_def)
  then have "set_cell (set_cell (board b) r c stone) r c EMPTY = board b"
    by (simp add: set_cell_set_cell set_cell_same)
  then have "removeStone r c
      (b\<lparr> board := set_cell (board b) r c stone,
          moveHistory := moveHistory b @ [Position r c],
          moveCount := moveCount b + 1 \<rparr>) = b"
    by (simp add: removeStone_def Let_def)
  then show ?thesis
    by (simp only: placeStone_valid [OF assms] snd_conv)
qed

lemma isValidMove_new_Board: "isValidMove new_Board 7 7"
  by (simp add: isValidMove_def new_Board_def BOARD_SIZE_def cell_def)

text \<open>
  C4. For every board and every valid move (coordinates in range, cell EMPTY),
  \<open>placeStone\<close> succeeds and \<open>removeStone\<close> at the same coordinates then gives back the
  board as it was: the grid, the move history and the move counter.
\<close>

theorem place_then_remove_restores:
  "isValidMove b r c \<Longrightarrow>
   fst (placeStone r c stone b) \<and>
   removeStone r c (snd (placeStone r c stone b)) = b"
  using removeStone_placeStone [of b r c stone] by (simp add: placeStone_valid)

theorem place_then_remove_restores_witness:
  "isValidMove new_Board 7 7 \<and>
   fst (placeStone 7 7 BLACK new_Board) \<and>
   removeStone 7 7 (snd (placeStone 7 7 BLACK new_Board)) = new_Board"
  using place_then_remove_restores [of new_Board 7 7 BLACK] isValidMove_new_Board
  by simp

text \<open>
  C9. On a well-formed board with a non-empty history, \<open>removeStone\<close> at any
  coordinates in range empties that cell, leaves every other cell, pops the last
  entry of the history and decrements the counter. Nothing relates the coordinates
  to the entry that is popped: a call that does not match the history is accepted.
\<close>

theorem removeStone_unchecked:
  assumes "wf_grid (board b)" and "in_range r c" and "moveHistory b \<noteq> []"
  shows "board (removeStone r c b) = set_cell (board b) r c EMPTY \<and>
         getStone (removeStone r c b) r c = EMPTY \<and>
         moveHistory (removeStone r c b) = butlast (moveHistory b) \<and>
         moveCount (removeStone r c b) = moveCount b - 1"
proof -
  have g: "board (removeStone r c b) = set_cell (board b) r c EMPTY"
    by (simp add: removeStone_def Let_def)
  from assms(1,2) have "cell (set_cell (board b) r c EMPTY) r c = EMPTY"
    by (rule cell_set_cell_same)
  with g have "getStone (removeStone r c b) r c = EMPTY"
    by (simp add: getStone_def)
  with g assms(3) show ?thesis
    by (simp add: removeStone_def Let_def)
qed

text \<open>The witness is a call that does not match: the only stone was played at (7, 7),
  the stone removed is the one at (0, 0).\<close>

theorem removeStone_unchecked_witness:
  "wf_grid (board (snd (placeStone 7 7 BLACK new_Board))) \<and> in_range 0 0 \<and>
   moveHistory (snd (placeStone 7 7 BLACK new_Board)) = [Position 7 7] \<and>
   getStone (removeStone 0 0 (snd (placeStone 7 7 BLACK new_Board))) 7 7 = BLACK \<and>
   moveHistory (removeStone 0 0 (snd (placeStone 7 7 BLACK new_Board))) = [] \<and>
   moveCount (removeStone 0 0 (snd (placeStone 7 7 BLACK new_Board))) = 0"
proof -
  let ?b = "snd (placeStone 7 7 BLACK new_Board)"
  have b: "?b = \<lparr> board = set_cell (replicate 15 (replicate 15 EMPTY)) 7 7 BLACK,
                   moveHistory = [Position 7 7], moveCount = 1 \<rparr>"
    unfolding placeStone_valid [OF isValidMove_new_Board] by (simp add: new_Board_def)
  have wf: "wf_grid (board ?b)"
    by (simp add: b wf_grid_set_cell wf_grid_replicate)
  have rg: "in_range 0 0"
    by (simp add: in_range_def BOARD_SIZE_def)
  have h: "moveHistory ?b \<noteq> []"
    by (simp add: b)
  have "cell (set_cell (board ?b) 0 0 EMPTY) 7 7 = cell (board ?b) 7 7"
    by (rule cell_set_cell_other) simp_all
  also have "\<dots> = BLACK"
    by (simp add: b cell_set_cell_same wf_grid_replicate in_range_def BOARD_SIZE_def)
  finally have "getStone (removeStone 0 0 ?b) 7 7 = BLACK"
    using removeStone_unchecked [OF wf rg h] by (simp add: getStone_def BOARD_SIZE_def)
  with removeStone_unchecked [OF wf rg h] wf rg show ?thesis
    by (simp add: b)
qed

text \<open>
  C10. \<open>getStone\<close> answers for every pair of integers. Outside the board it answers
  EMPTY without reading the array; inside, the cell it reads exists: the row index is
  below the number of rows and the column index below the length of that row.
\<close>

theorem getStone_total:
  assumes "wf_grid (board b)"
  shows "(r < 0 \<or> r \<ge> 15 \<or> c < 0 \<or> c \<ge> 15 \<longrightarrow> getStone b r c = EMPTY) \<and>
         (0 \<le> r \<and> r < 15 \<and> 0 \<le> c \<and> c < 15 \<longrightarrow>
            nat r < length (board b) \<and> nat c < length (board b ! nat r) \<and>
            getStone b r c = board b ! nat r ! nat c)"
proof -
  have "nat r < length (board b) \<and> nat c < length (board b ! nat r)"
    if "0 \<le> r" "r < 15" "0 \<le> c" "c < 15"
  proof -
    from that have "nat r < 15" and "nat c < 15" by simp_all
    with assms show ?thesis
      by (simp add: wf_grid_def list_all_length)
  qed
  then show ?thesis
    by (auto simp: getStone_def BOARD_SIZE_def cell_def)
qed

theorem getStone_total_witness:
  "wf_grid (board new_Board) \<and>
   getStone new_Board (- 1) 7 = EMPTY \<and> getStone new_Board 7 15 = EMPTY \<and>
   getStone new_Board 14 14 = board new_Board ! 14 ! 14"
proof -
  have wf: "wf_grid (board new_Board)"
    by (simp add: new_Board_def wf_grid_replicate)
  from getStone_total [OF wf, of "- 1" 7] getStone_total [OF wf, of 7 15]
    getStone_total [OF wf, of 14 14] wf
  show ?thesis by simp
qed

section \<open>Boards reached by play\<close>

text \<open>The number of cells of the grid that are not EMPTY.\<close>

definition count_stones :: "Stone grid \<Rightarrow> nat" where
  "count_stones g = sum_list (map (\<lambda>cells. length (filter (\<lambda>s. s \<noteq> EMPTY) cells)) g)"

text \<open>
  The boards a caller can reach from \<open>Board()\<close>: by a \<open>placeStone\<close> of a side that
  returns true, and by a \<open>removeStone\<close> at the coordinates played last and not yet undone
  (the last entry of the history).
\<close>

inductive reachable :: "Board \<Rightarrow> bool" where
  reachable_new: "reachable new_Board"
| reachable_place:
    "reachable b \<Longrightarrow> stone \<noteq> EMPTY \<Longrightarrow> placeStone r c stone b = (True, b') \<Longrightarrow> reachable b'"
| reachable_undo:
    "reachable b \<Longrightarrow> moveHistory b \<noteq> [] \<Longrightarrow> last (moveHistory b) = Position r c \<Longrightarrow>
     reachable (removeStone r c b)"

text \<open>Playing a list of moves in order; \<open>None\<close> as soon as a \<open>placeStone\<close> returns false,
  that is, as soon as a move is out of range or on a cell that is not EMPTY.\<close>

fun replay :: "(Position \<times> Stone) list \<Rightarrow> Board \<Rightarrow> Board option" where
  "replay [] b = Some b"
| "replay ((p, s) # ms) b =
     (case placeStone (row p) (col p) s b of
        (True, b') \<Rightarrow> replay ms b'
      | (False, b') \<Rightarrow> None)"

lemma replay_append:
  "replay (xs @ ys) b = (case replay xs b of None \<Rightarrow> None | Some b' \<Rightarrow> replay ys b')"
  by (induction xs arbitrary: b) (auto split: prod.splits bool.splits)

lemma replay_snoc_Some:
  "replay (xs @ [(p, s)]) b = Some b' \<longleftrightarrow>
   (\<exists>b0. replay xs b = Some b0 \<and> placeStone (row p) (col p) s b0 = (True, b'))"
  by (auto simp: replay_append split: option.splits prod.splits bool.splits)

lemma placeStone_True:
  "placeStone r c s b = (True, b') \<longleftrightarrow>
   isValidMove b r c \<and>
   b' = b\<lparr> board := set_cell (board b) r c s,
            moveHistory := moveHistory b @ [Position r c],
            moveCount := moveCount b + 1 \<rparr>"
  by (auto simp: placeStone_def)

lemma filter_update_count:
  "i < length xs \<Longrightarrow> xs ! i = EMPTY \<Longrightarrow> s \<noteq> EMPTY \<Longrightarrow>
   length (filter (\<lambda>s. s \<noteq> EMPTY) (xs[i := s])) = Suc (length (filter (\<lambda>s. s \<noteq> EMPTY) xs))"
proof (induction xs arbitrary: i)
  case Nil
  then show ?case by simp
next
  case (Cons x xs)
  then show ?case by (cases i) auto
qed

lemma sum_list_map_update:
  fixes f :: "'a \<Rightarrow> nat"
  shows "i < length xs \<Longrightarrow> f y = Suc (f (xs ! i)) \<Longrightarrow>
         sum_list (map f (xs[i := y])) = Suc (sum_list (map f xs))"
proof (induction xs arbitrary: i)
  case Nil
  then show ?case by simp
next
  case (Cons x xs)
  then show ?case by (cases i) auto
qed

lemma count_stones_set_cell:
  assumes "wf_grid g" and "in_range r c" and "cell g r c = EMPTY" and "s \<noteq> EMPTY"
  shows "count_stones (set_cell g r c s) = Suc (count_stones g)"
proof -
  from assms(1,2) have r: "nat r < length g" and c: "nat c < length (g ! nat r)"
    by (auto simp: in_range_def BOARD_SIZE_def wf_grid_def list_all_length)
  from assms(2) have nn: "r \<ge> 0 \<and> c \<ge> 0"
    by (simp add: in_range_def)
  from c assms(3,4)
  have "length (filter (\<lambda>s. s \<noteq> EMPTY) ((g ! nat r)[nat c := s])) =
        Suc (length (filter (\<lambda>s. s \<noteq> EMPTY) (g ! nat r)))"
    by (intro filter_update_count) (simp_all add: cell_def)
  with r have "sum_list (map (\<lambda>cells. length (filter (\<lambda>s. s \<noteq> EMPTY) cells))
                  (g[nat r := (g ! nat r)[nat c := s]])) =
               Suc (sum_list (map (\<lambda>cells. length (filter (\<lambda>s. s \<noteq> EMPTY) cells)) g))"
    by (intro sum_list_map_update) simp_all
  with nn show ?thesis
    by (simp add: count_stones_def set_cell_def)
qed

lemma count_stones_empty: "count_stones (replicate 15 (replicate 15 EMPTY)) = 0"
  by (simp add: count_stones_def)

text \<open>What a successful replay from the empty board leaves.\<close>

lemma replay_facts:
  assumes "replay ms new_Board = Some b" and "EMPTY \<notin> snd ` set ms"
  shows "wf_grid (board b) \<and>
         count_stones (board b) = length ms \<and>
         moveCount b = int (length ms) \<and>
         moveHistory b = map fst ms \<and>
         distinct (map fst ms) \<and>
         (\<forall>p \<in> set (map fst ms).
            in_range (row p) (col p) \<and> cell (board b) (row p) (col p) \<noteq> EMPTY)"
  using assms
proof (induction ms arbitrary: b rule: rev_induct)
  case Nil
  then have "b = new_Board" by simp
  then show ?case
    by (simp add: new_Board_def wf_grid_replicate count_stones_empty)
next
  case (snoc m ms)
  obtain p s where m: "m = (p, s)" by (cases m)
  from snoc.prems(1) obtain b0 where
    b0: "replay ms new_Board = Some b0" and
    pl: "placeStone (row p) (col p) s b0 = (True, b)"
    by (auto simp: m replay_snoc_Some)
  from snoc.prems(2) have s: "s \<noteq> EMPTY" and rest: "EMPTY \<notin> snd ` set ms"
    by (auto simp: m)
  note ih = snoc.IH [OF b0 rest]
  from ih have wf0: "wf_grid (board b0)" by simp
  from pl have valid: "isValidMove b0 (row p) (col p)" and
    b: "b = b0\<lparr> board := set_cell (board b0) (row p) (col p) s,
                moveHistory := moveHistory b0 @ [Position (row p) (col p)],
                moveCount := moveCount b0 + 1 \<rparr>"
    by (simp_all add: placeStone_True)
  from valid have rg: "in_range (row p) (col p)" and em: "cell (board b0) (row p) (col p) = EMPTY"
    by (simp_all add: isValidMove_def in_range_def)
  from ih em have fresh: "p \<notin> set (map fst ms)"
    by auto
  have new: "cell (board b) (row p) (col p) \<noteq> EMPTY"
    using wf0 rg s by (simp add: b cell_set_cell_same)
  have old: "in_range (row q) (col q) \<and> cell (board b) (row q) (col q) \<noteq> EMPTY"
    if "q \<in> set (map fst ms)" for q
  proof -
    from that ih have q: "in_range (row q) (col q)" "cell (board b0) (row q) (col q) \<noteq> EMPTY"
      by blast+
    from that fresh have "q \<noteq> p" by blast
    then have "(row q, col q) \<noteq> (row p, col p)"
      by (auto simp: Position.expand)
    with q(1) rg
    have "cell (set_cell (board b0) (row p) (col p) s) (row q) (col q) =
          cell (board b0) (row q) (col q)"
      by (intro cell_set_cell_other) (simp_all add: in_range_def)
    with q show ?thesis by (simp add: b)
  qed
  have "count_stones (board b) = Suc (count_stones (board b0))"
    using wf0 rg em s by (simp add: b count_stones_set_cell)
  moreover have "wf_grid (board b)"
    using wf0 by (simp add: b wf_grid_set_cell)
  moreover have "moveHistory b = map fst (ms @ [m])"
    using ih by (simp add: b m)
  moreover have "moveCount b = int (length (ms @ [m]))"
    using ih by (simp add: b)
  moreover have "distinct (map fst (ms @ [m]))"
    using ih fresh by (simp add: m)
  moreover have "\<forall>q \<in> set (map fst (ms @ [m])).
                   in_range (row q) (col q) \<and> cell (board b) (row q) (col q) \<noteq> EMPTY"
    using old new rg by (auto simp: m)
  ultimately show ?case
    using ih by simp
qed

text \<open>The board is the replay of its own history, every move of it played on an EMPTY
  cell by a side.\<close>

definition replays_history :: "Board \<Rightarrow> bool" where
  "replays_history b \<longleftrightarrow>
     (\<exists>stones. length stones = length (moveHistory b) \<and> EMPTY \<notin> set stones \<and>
        replay (zip (moveHistory b) stones) new_Board = Some b)"

lemma zip_snoc: "length xs = length ys \<Longrightarrow> zip (xs @ [x]) (ys @ [y]) = zip xs ys @ [(x, y)]"
  by simp

lemma replays_history_new: "replays_history new_Board"
  unfolding replays_history_def by (rule exI [of _ "[]"]) (simp add: new_Board_def)

lemma replays_history_place:
  assumes "replays_history b" and "stone \<noteq> EMPTY" and "placeStone r c stone b = (True, b')"
  shows "replays_history b'"
proof -
  from assms(1) obtain stones where
    st: "length stones = length (moveHistory b)" "EMPTY \<notin> set stones"
        "replay (zip (moveHistory b) stones) new_Board = Some b"
    by (auto simp: replays_history_def)
  from assms(3) have h: "moveHistory b' = moveHistory b @ [Position r c]"
    by (auto simp: placeStone_True)
  from st(1) have z: "zip (moveHistory b') (stones @ [stone]) =
                      zip (moveHistory b) stones @ [(Position r c, stone)]"
    by (simp add: h)
  have "replay (zip (moveHistory b') (stones @ [stone])) new_Board = Some b'"
    unfolding z replay_snoc_Some using st(3) assms(3) by simp
  with st(1,2) assms(2) h show ?thesis
    unfolding replays_history_def by (intro exI [of _ "stones @ [stone]"]) simp
qed

lemma replays_history_undo:
  assumes "replays_history b" and "moveHistory b \<noteq> []" and "last (moveHistory b) = Position r c"
  shows "replays_history (removeStone r c b)"
proof -
  from assms(1) obtain stones where
    st: "length stones = length (moveHistory b)" "EMPTY \<notin> set stones"
        "replay (zip (moveHistory b) stones) new_Board = Some b"
    by (auto simp: replays_history_def)
  from assms(2,3) have h: "moveHistory b = butlast (moveHistory b) @ [Position r c]"
    by (metis append_butlast_last_id)
  from st(1) assms(2) have "stones \<noteq> []" by auto
  then have s: "stones = butlast stones @ [last stones]" by simp
  from st(1) have len: "length (butlast (moveHistory b)) = length (butlast stones)"
    by simp
  have "zip (butlast (moveHistory b) @ [Position r c]) (butlast stones @ [last stones]) =
        zip (butlast (moveHistory b)) (butlast stones) @ [(Position r c, last stones)]"
    using len by (rule zip_snoc)
  with h s have "zip (moveHistory b) stones =
        zip (butlast (moveHistory b)) (butlast stones) @ [(Position r c, last stones)]"
    by simp
  with st(3) obtain b0 where
    b0: "replay (zip (butlast (moveHistory b)) (butlast stones)) new_Board = Some b0" and
    pl: "placeStone r c (last stones) b0 = (True, b)"
    by (auto simp: replay_snoc_Some)
  from pl have valid: "isValidMove b0 r c"
    by (simp add: placeStone_True)
  from pl have b: "b = snd (placeStone r c (last stones) b0)"
    by simp
  have undone: "removeStone r c b = b0"
    unfolding b by (rule removeStone_placeStone [OF valid])
  from pl have "moveHistory b = moveHistory b0 @ [Position r c]"
    by (auto simp: placeStone_True)
  then have h0: "moveHistory b0 = butlast (moveHistory b)" by simp
  from st(2) have "EMPTY \<notin> set (butlast stones)"
    by (auto dest: in_set_butlastD)
  with b0 len show ?thesis
    unfolding replays_history_def undone h0 by (intro exI [of _ "butlast stones"]) simp
qed

lemma reachable_replays_history: "reachable b \<Longrightarrow> replays_history b"
proof (induction rule: reachable.induct)
  case reachable_new
  show ?case by (rule replays_history_new)
next
  case (reachable_place b stone r c b')
  then show ?case by (blast intro: replays_history_place)
next
  case (reachable_undo b r c)
  then show ?case by (blast intro: replays_history_undo)
qed

lemma replays_history_facts:
  assumes "replays_history b"
  shows "wf_grid (board b) \<and> int (count_stones (board b)) = moveCount b \<and>
         moveCount b = int (length (moveHistory b)) \<and> distinct (moveHistory b)"
proof -
  from assms obtain stones where
    st: "length stones = length (moveHistory b)" "EMPTY \<notin> set stones"
        "replay (zip (moveHistory b) stones) new_Board = Some b"
    by (auto simp: replays_history_def)
  have "EMPTY \<notin> snd ` set (zip (moveHistory b) stones)"
    using st(2) by (auto dest: set_zip_rightD)
  from replay_facts [OF st(3) this] st(1) show ?thesis
    by simp
qed

text \<open>
  C8. On every board reached from \<open>Board()\<close> by successful \<open>placeStone\<close> calls of a side
  and \<open>removeStone\<close> calls at the coordinates played last, the number of cells that are
  not EMPTY, the move counter and the length of the history are equal, the coordinates
  of the history are distinct, and the board is the replay of its history from the
  empty board with every move played on a cell that was EMPTY then.
\<close>

theorem reachable_invariant:
  assumes "reachable b"
  shows "int (count_stones (board b)) = moveCount b \<and>
         moveCount b = int (length (moveHistory b)) \<and>
         distinct (moveHistory b) \<and>
         replays_history b"
  using reachable_replays_history [OF assms] replays_history_facts by blast

theorem reachable_invariant_witness:
  "reachable (snd (placeStone 7 7 BLACK new_Board)) \<and>
   int (count_stones (board (snd (placeStone 7 7 BLACK new_Board)))) = 1 \<and>
   moveCount (snd (placeStone 7 7 BLACK new_Board)) = 1 \<and>
   moveHistory (snd (placeStone 7 7 BLACK new_Board)) = [Position 7 7]"
proof -
  let ?b = "snd (placeStone 7 7 BLACK new_Board)"
  have pl: "placeStone 7 7 BLACK new_Board = (True, ?b)"
    by (simp add: placeStone_valid [OF isValidMove_new_Board])
  have r: "reachable ?b"
    by (rule reachable_place [OF reachable_new _ pl]) simp
  have h: "moveHistory ?b = [Position 7 7]"
    unfolding placeStone_valid [OF isValidMove_new_Board] by (simp add: new_Board_def)
  from reachable_invariant [OF r] r h show ?thesis
    by simp
qed

section \<open>The evaluator is zero-sum\<close>

lemma evaluate_cell_neg:
  "evaluate_cell b BLACK r c (- s) = - evaluate_cell b WHITE r c s"
  by (cases "getStone b r c") (simp_all add: evaluate_cell_def Let_def DIRECTIONS_def)

lemma evaluate_row_neg:
  "fold (\<lambda>c. evaluate_cell b BLACK r c) cs (- s) = - fold (\<lambda>c. evaluate_cell b WHITE r c) cs s"
proof (induction cs arbitrary: s)
  case Nil
  show ?case by simp
next
  case (Cons c cs)
  have "fold (\<lambda>c. evaluate_cell b BLACK r c) (c # cs) (- s) =
        fold (\<lambda>c. evaluate_cell b BLACK r c) cs (- evaluate_cell b WHITE r c s)"
    by (simp add: evaluate_cell_neg)
  also have "\<dots> = - fold (\<lambda>c. evaluate_cell b WHITE r c) cs (evaluate_cell b WHITE r c s)"
    by (rule Cons.IH)
  finally show ?case by simp
qed

lemma evaluate_rows_neg:
  "fold (\<lambda>r. fold (\<lambda>c. evaluate_cell b BLACK r c) cs) rs (- s) =
   - fold (\<lambda>r. fold (\<lambda>c. evaluate_cell b WHITE r c) cs) rs s"
proof (induction rs arbitrary: s)
  case Nil
  show ?case by simp
next
  case (Cons r rs)
  have "fold (\<lambda>r. fold (\<lambda>c. evaluate_cell b BLACK r c) cs) (r # rs) (- s) =
        fold (\<lambda>r. fold (\<lambda>c. evaluate_cell b BLACK r c) cs) rs
          (- fold (\<lambda>c. evaluate_cell b WHITE r c) cs s)"
    by (simp add: evaluate_row_neg)
  also have "\<dots> = - fold (\<lambda>r. fold (\<lambda>c. evaluate_cell b WHITE r c) cs) rs
                       (fold (\<lambda>c. evaluate_cell b WHITE r c) cs s)"
    by (rule Cons.IH)
  finally show ?case by simp
qed

text \<open>
  C6. On every board the score \<open>evaluatePosition\<close> computes for BLACK is the negation
  of the score it computes for WHITE.
\<close>

theorem evaluatePosition_antisymmetric:
  "evaluatePosition b BLACK = - evaluatePosition b WHITE"
  using evaluate_rows_neg [of b "[0..BOARD_SIZE - 1]" "[0..BOARD_SIZE - 1]" 0]
  by (simp add: evaluatePosition_def)

theorem evaluatePosition_antisymmetric_witness:
  "evaluatePosition new_Board BLACK = - evaluatePosition new_Board WHITE"
  by (rule evaluatePosition_antisymmetric [of new_Board])

section \<open>The candidate generator\<close>

text \<open>
  What the generator is to return once a move has been played: the cells in range that
  are EMPTY and within Chebyshev distance \<open>R\<close> of a cell in range that is not.
\<close>

definition candidate_cells :: "Board \<Rightarrow> int \<Rightarrow> Position set" where
  "candidate_cells b R =
     {p. in_range (row p) (col p) \<and> getStone b (row p) (col p) = EMPTY \<and>
         (\<exists>r c. in_range r c \<and> getStone b r c \<noteq> EMPTY \<and>
                \<bar>row p - r\<bar> \<le> R \<and> \<bar>col p - c\<bar> \<le> R)}"

text \<open>The invariant of the loops: \<open>considered\<close> marks exactly the cells of \<open>moves\<close>, and no
  cell is in \<open>moves\<close> twice.\<close>

definition scan_inv :: "Position list \<times> bool grid \<Rightarrow> bool" where
  "scan_inv st \<longleftrightarrow>
     wf_grid (snd st) \<and> distinct (fst st) \<and>
     (\<forall>r c. in_range r c \<longrightarrow> cell (snd st) r c = (Position r c \<in> set (fst st)))"

lemma fold_collect:
  assumes "\<And>x st. I st \<Longrightarrow> I (f x st) \<and> set (fst (f x st)) = set (fst st) \<union> A x"
    and "I st"
  shows "I (fold f xs st) \<and> set (fst (fold f xs st)) = set (fst st) \<union> (\<Union>x \<in> set xs. A x)"
  using assms(2)
proof (induction xs arbitrary: st)
  case Nil
  then show ?case by simp
next
  case (Cons x xs)
  from assms(1) [OF Cons.prems, of x]
  have i: "I (f x st)" and s: "set (fst (f x st)) = set (fst st) \<union> A x"
    by simp_all
  from Cons.IH [OF i] s show ?case
    by auto
qed

lemma consider_cell_step:
  assumes "scan_inv st"
  shows "scan_inv (consider_cell b nr nc st) \<and>
         set (fst (consider_cell b nr nc st)) =
           set (fst st) \<union> (if isValidMove b nr nc then {Position nr nc} else {})"
proof (cases "isValidMove b nr nc \<and> \<not> cell (snd st) nr nc")
  case False
  from assms have "isValidMove b nr nc \<Longrightarrow> cell (snd st) nr nc = (Position nr nc \<in> set (fst st))"
    by (simp add: scan_inv_def isValidMove_def in_range_def)
  with False assms show ?thesis
    by (cases st) (auto simp: consider_cell_def)
next
  case True
  then have rg: "in_range nr nc"
    by (simp add: isValidMove_def in_range_def)
  obtain moves considered where st: "st = (moves, considered)"
    by (cases st)
  from assms have wf: "wf_grid considered" and d: "distinct moves" and
    mark: "\<And>r c. in_range r c \<Longrightarrow> cell considered r c = (Position r c \<in> set moves)"
    by (simp_all add: scan_inv_def st)
  from True rg mark have fresh: "Position nr nc \<notin> set moves"
    by (simp add: st)
  have res: "consider_cell b nr nc st = (moves @ [Position nr nc], set_cell considered nr nc True)"
    using True by (simp add: consider_cell_def st)
  have "cell (set_cell considered nr nc True) r c = (Position r c \<in> set (moves @ [Position nr nc]))"
    if "in_range r c" for r c
  proof (cases "(r, c) = (nr, nc)")
    case True
    with wf rg show ?thesis by (simp add: cell_set_cell_same)
  next
    case False
    with rg that have "cell (set_cell considered nr nc True) r c = cell considered r c"
      by (intro cell_set_cell_other) (simp_all add: in_range_def)
    with False mark [OF that] show ?thesis by auto
  qed
  with wf d fresh True show ?thesis
    unfolding res scan_inv_def by (simp add: wf_grid_set_cell st)
qed

lemma scan_around_step:
  assumes "scan_inv st"
  shows "scan_inv (scan_around b R r c st) \<and>
         set (fst (scan_around b R r c st)) =
           set (fst st) \<union>
           (\<Union>dr \<in> {- R..R}. \<Union>dc \<in> {- R..R}.
              if isValidMove b (r + dr) (c + dc) then {Position (r + dr) (c + dc)} else {})"
proof -
  have inner: "scan_inv (fold (\<lambda>dc. consider_cell b (r + dr) (c + dc)) [- R..R] s) \<and>
        set (fst (fold (\<lambda>dc. consider_cell b (r + dr) (c + dc)) [- R..R] s)) =
          set (fst s) \<union>
          (\<Union>dc \<in> set [- R..R].
             if isValidMove b (r + dr) (c + dc) then {Position (r + dr) (c + dc)} else {})"
    if "scan_inv s" for dr s
    using that by (intro fold_collect consider_cell_step)
  have "scan_inv (scan_around b R r c st) \<and>
        set (fst (scan_around b R r c st)) =
          set (fst st) \<union>
          (\<Union>dr \<in> set [- R..R]. \<Union>dc \<in> set [- R..R].
             if isValidMove b (r + dr) (c + dc) then {Position (r + dr) (c + dc)} else {})"
    unfolding scan_around_def using assms by (intro fold_collect inner)
  then show ?thesis by simp
qed

definition around :: "Board \<Rightarrow> int \<Rightarrow> int \<Rightarrow> int \<Rightarrow> Position set" where
  "around b R r c =
     (if cell (board b) r c \<noteq> EMPTY
      then (\<Union>dr \<in> {- R..R}. \<Union>dc \<in> {- R..R}.
              if isValidMove b (r + dr) (c + dc) then {Position (r + dr) (c + dc)} else {})
      else {})"

lemma scan_stone_step:
  assumes "scan_inv st"
  shows "scan_inv (scan_stone b R r c st) \<and>
         set (fst (scan_stone b R r c st)) = set (fst st) \<union> around b R r c"
  using assms scan_around_step [OF assms, of b R r c]
  by (simp add: scan_stone_def around_def)

lemma scan_inv_initial: "scan_inv ([], replicate 15 (replicate 15 False))"
proof -
  have "cell (replicate 15 (replicate 15 False)) r c = False" if "in_range r c" for r c
  proof -
    from that have "nat r < 15" and "nat c < 15"
      by (auto simp: in_range_def BOARD_SIZE_def)
    then show ?thesis by (simp add: cell_def)
  qed
  then show ?thesis
    by (simp add: scan_inv_def wf_grid_replicate)
qed

lemma scan_all:
  "scan_inv (fold (\<lambda>r. fold (\<lambda>c. scan_stone b R r c) [0..BOARD_SIZE - 1]) [0..BOARD_SIZE - 1]
               ([], replicate 15 (replicate 15 False))) \<and>
   set (fst (fold (\<lambda>r. fold (\<lambda>c. scan_stone b R r c) [0..BOARD_SIZE - 1]) [0..BOARD_SIZE - 1]
               ([], replicate 15 (replicate 15 False)))) =
     (\<Union>r \<in> {0..14}. \<Union>c \<in> {0..14}. around b R r c)"
proof -
  have inner: "scan_inv (fold (\<lambda>c. scan_stone b R r c) [0..BOARD_SIZE - 1] s) \<and>
        set (fst (fold (\<lambda>c. scan_stone b R r c) [0..BOARD_SIZE - 1] s)) =
          set (fst s) \<union> (\<Union>c \<in> set [0..BOARD_SIZE - 1]. around b R r c)"
    if "scan_inv s" for r s
    using that by (intro fold_collect scan_stone_step)
  have "scan_inv (fold (\<lambda>r. fold (\<lambda>c. scan_stone b R r c) [0..BOARD_SIZE - 1]) [0..BOARD_SIZE - 1]
               ([], replicate 15 (replicate 15 False))) \<and>
   set (fst (fold (\<lambda>r. fold (\<lambda>c. scan_stone b R r c) [0..BOARD_SIZE - 1]) [0..BOARD_SIZE - 1]
               ([], replicate 15 (replicate 15 False)))) =
     set (fst (([] :: Position list), replicate 15 (replicate 15 False))) \<union>
     (\<Union>r \<in> set [0..BOARD_SIZE - 1]. \<Union>c \<in> set [0..BOARD_SIZE - 1]. around b R r c)"
    using scan_inv_initial by (intro fold_collect inner)
  then show ?thesis by (simp add: BOARD_SIZE_def)
qed

lemma around_candidates:
  "(\<Union>r \<in> {0..14}. \<Union>c \<in> {0..14}. around b R r c) = candidate_cells b R"
proof (rule set_eqI)
  fix p
  show "p \<in> (\<Union>r \<in> {0..14}. \<Union>c \<in> {0..14}. around b R r c) \<longleftrightarrow> p \<in> candidate_cells b R"
  proof
    assume "p \<in> (\<Union>r \<in> {0..14}. \<Union>c \<in> {0..14}. around b R r c)"
    then obtain r c dr dc where
      rc: "0 \<le> r" "r \<le> 14" "0 \<le> c" "c \<le> 14" "cell (board b) r c \<noteq> EMPTY" and
      d: "- R \<le> dr" "dr \<le> R" "- R \<le> dc" "dc \<le> R" and
      v: "isValidMove b (r + dr) (c + dc)" and p: "p = Position (r + dr) (c + dc)"
      by (auto simp: around_def split: if_splits)
    from rc have 1: "in_range r c \<and> getStone b r c \<noteq> EMPTY"
      by (simp add: in_range_def getStone_def BOARD_SIZE_def)
    from v have 2: "in_range (row p) (col p) \<and> getStone b (row p) (col p) = EMPTY"
      by (simp add: p isValidMove_def in_range_def getStone_def)
    from d have "\<bar>row p - r\<bar> \<le> R \<and> \<bar>col p - c\<bar> \<le> R"
      by (simp add: p abs_le_iff)
    with 1 2 show "p \<in> candidate_cells b R"
      unfolding candidate_cells_def by blast
  next
    assume "p \<in> candidate_cells b R"
    then obtain r c where
      pr: "in_range (row p) (col p)" "getStone b (row p) (col p) = EMPTY" and
      rc: "in_range r c" "getStone b r c \<noteq> EMPTY" and
      d: "\<bar>row p - r\<bar> \<le> R" "\<bar>col p - c\<bar> \<le> R"
      by (auto simp: candidate_cells_def)
    from rc have 1: "r \<in> {0..14}" "c \<in> {0..14}" "cell (board b) r c \<noteq> EMPTY"
      by (simp_all add: in_range_def getStone_def BOARD_SIZE_def)
    from d have 2: "row p - r \<in> {- R..R}" "col p - c \<in> {- R..R}"
      by (simp_all add: abs_le_iff)
    from pr have 3: "isValidMove b (r + (row p - r)) (c + (col p - c))"
      by (simp add: isValidMove_def in_range_def getStone_def)
    have 4: "p = Position (r + (row p - r)) (c + (col p - c))"
      by simp
    from 3 4 have "p \<in> (if isValidMove b (r + (row p - r)) (c + (col p - c))
                        then {Position (r + (row p - r)) (c + (col p - c))} else {})"
      by simp
    with 2 have "p \<in> (\<Union>dr \<in> {- R..R}. \<Union>dc \<in> {- R..R}.
                         if isValidMove b (r + dr) (c + dc) then {Position (r + dr) (c + dc)} else {})"
      by blast
    with 1(3) have "p \<in> around b R r c"
      by (simp add: around_def)
    with 1(1,2) show "p \<in> (\<Union>r \<in> {0..14}. \<Union>c \<in> {0..14}. around b R r c)"
      by blast
  qed
qed

text \<open>
  C5. With no move played the generator returns the centre (7, 7) and nothing else.
  Otherwise it returns, each once, exactly the cells in range that are EMPTY and within
  Chebyshev distance \<open>R\<close> of a cell that is not.
\<close>

theorem getRelevantMoves_candidates:
  "(moveCount b = 0 \<longrightarrow> getRelevantMoves b R = [Position 7 7]) \<and>
   (moveCount b \<noteq> 0 \<longrightarrow>
      set (getRelevantMoves b R) = candidate_cells b R \<and> distinct (getRelevantMoves b R))"
  using scan_all [of b R] around_candidates [of b R]
  by (simp add: getRelevantMoves_def scan_inv_def BOARD_SIZE_def)

theorem getRelevantMoves_candidates_witness:
  "moveCount new_Board = 0 \<and> getRelevantMoves new_Board 2 = [Position 7 7] \<and>
   moveCount (snd (placeStone 7 7 BLACK new_Board)) \<noteq> 0 \<and>
   set (getRelevantMoves (snd (placeStone 7 7 BLACK new_Board)) 1) =
     candidate_cells (snd (placeStone 7 7 BLACK new_Board)) 1 \<and>
   distinct (getRelevantMoves (snd (placeStone 7 7 BLACK new_Board)) 1)"
proof -
  have 0: "moveCount new_Board = 0"
    by (simp add: new_Board_def)
  have 1: "moveCount (snd (placeStone 7 7 BLACK new_Board)) \<noteq> 0"
    unfolding placeStone_valid [OF isValidMove_new_Board] by (simp add: new_Board_def)
  from getRelevantMoves_candidates [of new_Board 2]
    getRelevantMoves_candidates [of "snd (placeStone 7 7 BLACK new_Board)" 1] 0 1
  show ?thesis by simp
qed

section \<open>class Gomoku (second program of the file): countLine and checkWinFast\<close>

definition WIN_COUNT :: int where
  "WIN_COUNT = 5"

text \<open>
  The two \<open>while\<close> loops of \<open>countLine\<close>: from \<open>(r, c)\<close>, while the cell is on the board and
  holds \<open>player\<close>, count it and step by \<open>(sRow, sCol)\<close>. The first loop steps by
  \<open>(dRow, dCol)\<close>, the second by \<open>(- dRow, - dCol)\<close>. A loop that never leaves (a step of
  \<open>(0, 0)\<close> on a cell of \<open>player\<close>) has the value \<open>None\<close>.
\<close>

partial_function (option) count_while ::
  "int grid \<Rightarrow> int \<Rightarrow> int \<Rightarrow> int \<Rightarrow> int \<Rightarrow> int \<Rightarrow> int \<Rightarrow> int option" where
  "count_while g r c sRow sCol player count =
     (if r \<ge> 0 \<and> r < BOARD_SIZE \<and> c \<ge> 0 \<and> c < BOARD_SIZE \<and> cell g r c = player
      then count_while g (r + sRow) (c + sCol) sRow sCol player (count + 1)
      else Some count)"

definition countLine :: "int grid \<Rightarrow> int \<Rightarrow> int \<Rightarrow> int \<Rightarrow> int \<Rightarrow> int \<Rightarrow> int option" where
  "countLine g r c dRow dCol player =
     (case count_while g (r + dRow) (c + dCol) dRow dCol player 1 of
        None \<Rightarrow> None
      | Some count \<Rightarrow> count_while g (r - dRow) (c - dCol) (- dRow) (- dCol) player count)"

fun any_line :: "int grid \<Rightarrow> int \<Rightarrow> int \<Rightarrow> int \<Rightarrow> (int \<times> int) list \<Rightarrow> bool option" where
  "any_line g r c player [] = Some False"
| "any_line g r c player ((dRow, dCol) # dirs) =
     (case countLine g r c dRow dCol player of
        None \<Rightarrow> None
      | Some count \<Rightarrow> if count \<ge> WIN_COUNT then Some True else any_line g r c player dirs)"

definition checkWinFast :: "int grid \<Rightarrow> int \<Rightarrow> int \<Rightarrow> bool option" where
  "checkWinFast g r c = any_line g r c (cell g r c) DIRECTIONS"

text \<open>
  The run through a cell along a direction, by its offsets from the cell: offset \<open>k\<close>
  belongs to it when every cell from the cell itself to offset \<open>k\<close> is on the board and
  holds the cell's value.
\<close>

definition same_at :: "int grid \<Rightarrow> int \<Rightarrow> int \<Rightarrow> int \<Rightarrow> bool" where
  "same_at g player r c \<longleftrightarrow> in_range r c \<and> cell g r c = player"

definition run_cells :: "int grid \<Rightarrow> int \<Rightarrow> int \<Rightarrow> int \<Rightarrow> int \<Rightarrow> int set" where
  "run_cells g r c dRow dCol =
     {k. \<forall>j. (0 \<le> j \<and> j \<le> k) \<or> (k \<le> j \<and> j \<le> 0) \<longrightarrow>
            same_at g (cell g r c) (r + j * dRow) (c + j * dCol)}"

definition run_length :: "int grid \<Rightarrow> int \<Rightarrow> int \<Rightarrow> int \<Rightarrow> int \<Rightarrow> nat" where
  "run_length g r c dRow dCol = card (run_cells g r c dRow dCol)"

lemma count_while_steps:
  assumes "\<forall>j. s \<le> j \<and> j < s + int n \<longrightarrow> same_at g p (r + j * sRow) (c + j * sCol)"
    and "\<not> same_at g p (r + (s + int n) * sRow) (c + (s + int n) * sCol)"
  shows "count_while g (r + s * sRow) (c + s * sCol) sRow sCol p count = Some (count + int n)"
  using assms
proof (induction n arbitrary: s count)
  case 0
  then have "\<not> same_at g p (r + s * sRow) (c + s * sCol)"
    by simp
  then show ?case
    by (subst count_while.simps) (auto simp: same_at_def in_range_def)
next
  case (Suc n)
  from Suc.prems(1) have here: "same_at g p (r + s * sRow) (c + s * sCol)"
    by simp
  have 1: "\<forall>j. s + 1 \<le> j \<and> j < s + 1 + int n \<longrightarrow> same_at g p (r + j * sRow) (c + j * sCol)"
    using Suc.prems(1) by simp
  have 2: "\<not> same_at g p (r + (s + 1 + int n) * sRow) (c + (s + 1 + int n) * sCol)"
    using Suc.prems(2) by (simp add: add.commute add.left_commute)
  have step: "r + s * sRow + sRow = r + (s + 1) * sRow" "c + s * sCol + sCol = c + (s + 1) * sCol"
    by (simp_all add: algebra_simps)
  have "count_while g (r + s * sRow) (c + s * sCol) sRow sCol p count =
        count_while g (r + (s + 1) * sRow) (c + (s + 1) * sCol) sRow sCol p (count + 1)"
    using here by (subst count_while.simps) (simp add: same_at_def in_range_def step)
  also have "\<dots> = Some (count + 1 + int n)"
    by (rule Suc.IH [OF 1 2])
  finally show ?case by simp
qed

text \<open>Along a step that is not \<open>(0, 0)\<close> the board ends within 15 cells.\<close>

lemma off_board:
  assumes "in_range r c" and "sRow \<in> {- 1, 0, 1}" and "sCol \<in> {- 1, 0, 1}"
    and "(sRow, sCol) \<noteq> (0, 0)" and "15 \<le> j"
  shows "\<not> in_range (r + j * sRow) (c + j * sCol)"
  using assms by (auto simp: in_range_def BOARD_SIZE_def)

lemma run_end:
  assumes "in_range r c" and "sRow \<in> {- 1, 0, 1}" and "sCol \<in> {- 1, 0, 1}"
    and "(sRow, sCol) \<noteq> (0, 0)"
  obtains n where
    "\<forall>j. 1 \<le> j \<and> j < 1 + int n \<longrightarrow> same_at g p (r + j * sRow) (c + j * sCol)"
    "\<not> same_at g p (r + (1 + int n) * sRow) (c + (1 + int n) * sCol)"
proof -
  let ?Q = "\<lambda>n. \<not> same_at g p (r + (1 + int n) * sRow) (c + (1 + int n) * sCol)"
  have "\<not> in_range (r + (1 + int 14) * sRow) (c + (1 + int 14) * sCol)"
    by (rule off_board [OF assms]) simp
  then have ex: "?Q 14"
    by (simp add: same_at_def)
  define n where "n = (LEAST n. ?Q n)"
  have last: "?Q n"
    unfolding n_def using ex by (rule LeastI)
  have "same_at g p (r + j * sRow) (c + j * sCol)" if "1 \<le> j" "j < 1 + int n" for j
  proof -
    from that have "nat (j - 1) < n" by simp
    then have "\<not> ?Q (nat (j - 1))"
      unfolding n_def by (rule not_less_Least)
    with that show ?thesis by simp
  qed
  with last that show thesis by blast
qed

lemma card_run:
  assumes centre: "same_at g (cell g r c) r c"
    and fwd: "\<forall>j. 1 \<le> j \<and> j < 1 + int n \<longrightarrow> same_at g (cell g r c) (r + j * dRow) (c + j * dCol)"
    and fwd_end: "\<not> same_at g (cell g r c) (r + (1 + int n) * dRow) (c + (1 + int n) * dCol)"
    and bwd: "\<forall>j. 1 \<le> j \<and> j < 1 + int m \<longrightarrow>
                same_at g (cell g r c) (r + j * (- dRow)) (c + j * (- dCol))"
    and bwd_end: "\<not> same_at g (cell g r c) (r + (1 + int m) * (- dRow)) (c + (1 + int m) * (- dCol))"
  shows "run_cells g r c dRow dCol = {- int m..int n}"
proof -
  let ?P = "\<lambda>j. same_at g (cell g r c) (r + j * dRow) (c + j * dCol)"
  have pos: "?P j" if "0 \<le> j" "j \<le> int n" for j
  proof (cases "j = 0")
    case True
    with centre show ?thesis by simp
  next
    case False
    with that fwd show ?thesis by simp
  qed
  have neg: "?P j" if "- int m \<le> j" "j \<le> 0" for j
  proof (cases "j = 0")
    case True
    with centre show ?thesis by simp
  next
    case False
    with that have "1 \<le> - j \<and> - j < 1 + int m" by simp
    with bwd have "same_at g (cell g r c) (r + (- j) * (- dRow)) (c + (- j) * (- dCol))"
      by blast
    then show ?thesis by simp
  qed
  have stop_pos: "\<not> ?P (1 + int n)"
    using fwd_end .
  have stop_neg: "\<not> ?P (- (1 + int m))"
    using bwd_end by (simp only: mult_minus_left mult_minus_right simp_thms)
  show ?thesis
  proof (rule set_eqI)
    fix k
    show "k \<in> run_cells g r c dRow dCol \<longleftrightarrow> k \<in> {- int m..int n}"
    proof
      assume k: "k \<in> run_cells g r c dRow dCol"
      have "k \<le> int n"
      proof (rule ccontr)
        assume "\<not> k \<le> int n"
        then have "0 \<le> 1 + int n \<and> 1 + int n \<le> k" by simp
        with k have "?P (1 + int n)"
          unfolding run_cells_def by blast
        with stop_pos show False ..
      qed
      moreover have "- int m \<le> k"
      proof (rule ccontr)
        assume "\<not> - int m \<le> k"
        then have "k \<le> - (1 + int m) \<and> - (1 + int m) \<le> 0" by simp
        with k have "?P (- (1 + int m))"
          unfolding run_cells_def by blast
        with stop_neg show False ..
      qed
      ultimately show "k \<in> {- int m..int n}" by simp
    next
      assume k: "k \<in> {- int m..int n}"
      have "?P j" if "(0 \<le> j \<and> j \<le> k) \<or> (k \<le> j \<and> j \<le> 0)" for j
        using that k pos [of j] neg [of j] by auto
      then show "k \<in> run_cells g r c dRow dCol"
        unfolding run_cells_def by blast
    qed
  qed
qed

lemma countLine_run_length:
  assumes "in_range r c" and "dRow \<in> {- 1, 0, 1}" and "dCol \<in> {- 1, 0, 1}"
    and "(dRow, dCol) \<noteq> (0, 0)"
  shows "countLine g r c dRow dCol (cell g r c) = Some (int (run_length g r c dRow dCol))"
proof -
  let ?p = "cell g r c"
  obtain n where
    fwd: "\<forall>j. 1 \<le> j \<and> j < 1 + int n \<longrightarrow> same_at g ?p (r + j * dRow) (c + j * dCol)" and
    fwd_end: "\<not> same_at g ?p (r + (1 + int n) * dRow) (c + (1 + int n) * dCol)"
    using run_end [OF assms] by blast
  from assms have opp: "- dRow \<in> {- 1, 0, 1}" "- dCol \<in> {- 1, 0, 1}" "(- dRow, - dCol) \<noteq> (0, 0)"
    by auto
  obtain m where
    bwd: "\<forall>j. 1 \<le> j \<and> j < 1 + int m \<longrightarrow> same_at g ?p (r + j * (- dRow)) (c + j * (- dCol))" and
    bwd_end: "\<not> same_at g ?p (r + (1 + int m) * (- dRow)) (c + (1 + int m) * (- dCol))"
    using run_end [OF assms(1) opp] by blast
  have 1: "count_while g (r + dRow) (c + dCol) dRow dCol ?p 1 = Some (1 + int n)"
    using count_while_steps [OF fwd fwd_end, of 1] by simp
  have 2: "count_while g (r - dRow) (c - dCol) (- dRow) (- dCol) ?p (1 + int n) =
           Some (1 + int n + int m)"
    using count_while_steps [OF bwd bwd_end, of "1 + int n"] by simp
  from assms(1) have "same_at g ?p r c"
    by (simp add: same_at_def)
  from card_run [OF this fwd fwd_end bwd bwd_end]
  have "run_length g r c dRow dCol = n + m + 1"
    by (simp add: run_length_def)
  with 1 2 show ?thesis
    by (simp add: countLine_def)
qed

text \<open>
  C3. For a cell on the board, \<open>checkWinFast\<close> returns, and returns true exactly when
  along one of the four directions the run of cells of the cell's side through the cell
  has length 5 or more. \<open>countLine\<close> returns the length of that run.
\<close>

theorem checkWinFast_run:
  assumes "in_range r c"
  shows "checkWinFast g r c =
           Some (run_length g r c 0 1 \<ge> 5 \<or> run_length g r c 1 0 \<ge> 5 \<or>
                 run_length g r c 1 1 \<ge> 5 \<or> run_length g r c 1 (- 1) \<ge> 5) \<and>
         countLine g r c 0 1 (cell g r c) = Some (int (run_length g r c 0 1)) \<and>
         countLine g r c 1 0 (cell g r c) = Some (int (run_length g r c 1 0)) \<and>
         countLine g r c 1 1 (cell g r c) = Some (int (run_length g r c 1 1)) \<and>
         countLine g r c 1 (- 1) (cell g r c) = Some (int (run_length g r c 1 (- 1)))"
proof -
  have h: "countLine g r c 0 1 (cell g r c) = Some (int (run_length g r c 0 1))"
    by (rule countLine_run_length [OF assms]) simp_all
  have v: "countLine g r c 1 0 (cell g r c) = Some (int (run_length g r c 1 0))"
    by (rule countLine_run_length [OF assms]) simp_all
  have d: "countLine g r c 1 1 (cell g r c) = Some (int (run_length g r c 1 1))"
    by (rule countLine_run_length [OF assms]) simp_all
  have a: "countLine g r c 1 (- 1) (cell g r c) = Some (int (run_length g r c 1 (- 1)))"
    by (rule countLine_run_length [OF assms]) simp_all
  from h v d a show ?thesis
    by (simp add: checkWinFast_def DIRECTIONS_def WIN_COUNT_def)
qed

text \<open>A grid with five stones of player 1 in row 7 (columns 3 to 7), and in row 9 two
  pairs of player 1 with a stone of player 2 between them.\<close>

definition five_row :: "int grid" where
  "five_row =
     (replicate 15 (replicate 15 0))
       [7 := [0, 0, 0, 1, 1, 1, 1, 1, 0, 0, 0, 0, 0, 0, 0],
        9 := [0, 0, 0, 1, 1, 2, 1, 1, 0, 0, 0, 0, 0, 0, 0]]"

lemma five_row_win: "checkWinFast five_row 7 5 = Some True"
  by (simp add: checkWinFast_def five_row_def countLine_def count_while.simps cell_def
      BOARD_SIZE_def DIRECTIONS_def WIN_COUNT_def)

lemma five_row_count: "countLine five_row 7 5 0 1 (cell five_row 7 5) = Some 5"
  by (simp add: five_row_def countLine_def count_while.simps cell_def BOARD_SIZE_def)

lemma five_row_no_win: "checkWinFast five_row 9 3 = Some False"
  by (simp add: checkWinFast_def five_row_def countLine_def count_while.simps cell_def
      BOARD_SIZE_def DIRECTIONS_def WIN_COUNT_def)

theorem checkWinFast_run_witness:
  "in_range 7 5 \<and> checkWinFast five_row 7 5 = Some True \<and> run_length five_row 7 5 0 1 = 5 \<and>
   in_range 9 3 \<and> checkWinFast five_row 9 3 = Some False \<and> run_length five_row 9 3 0 1 < 5"
proof -
  have a: "in_range 7 5" and b: "in_range 9 3"
    by (simp_all add: in_range_def BOARD_SIZE_def)
  from checkWinFast_run [OF a, of five_row] five_row_count
  have 1: "run_length five_row 7 5 0 1 = 5"
    by simp
  from checkWinFast_run [OF b, of five_row] five_row_no_win
  have 2: "run_length five_row 9 3 0 1 < 5"
    by simp
  from a b 1 2 five_row_win five_row_no_win show ?thesis
    by simp
qed

section \<open>The search leaves the board as it found it\<close>

text \<open>
  The invariant of the data model: the grid is 15 by 15, and the number of cells that
  are not EMPTY, the move counter and the length of the history are equal.
\<close>

definition board_inv :: "Board \<Rightarrow> bool" where
  "board_inv b \<longleftrightarrow>
     wf_grid (board b) \<and> int (count_stones (board b)) = moveCount b \<and>
     moveCount b = int (length (moveHistory b))"

text \<open>What the search needs of it: the counter is not negative, and the centre is free
  when the counter is 0.\<close>

definition centre_free :: "Board \<Rightarrow> bool" where
  "centre_free b \<longleftrightarrow> moveCount b \<ge> 0 \<and> (moveCount b = 0 \<longrightarrow> isValidMove b 7 7)"

definition valid_moves :: "Board \<Rightarrow> Position list \<Rightarrow> bool" where
  "valid_moves b moves \<longleftrightarrow> list_all (\<lambda>m. isValidMove b (row m) (col m)) moves"

lemma count_stones_0:
  assumes "count_stones g = 0" and "i < length g" and "j < length (g ! i)"
  shows "g ! i ! j = EMPTY"
proof -
  from assms(1,2) have "length (filter (\<lambda>s. s \<noteq> EMPTY) (g ! i)) = 0"
    by (auto simp: count_stones_def)
  then have "\<forall>s \<in> set (g ! i). s = EMPTY"
    by (simp add: filter_empty_conv)
  with assms(3) show ?thesis
    by (simp add: all_set_conv_all_nth)
qed

lemma board_inv_centre_free: "board_inv b \<Longrightarrow> centre_free b"
proof -
  assume inv: "board_inv b"
  have "isValidMove b 7 7" if "moveCount b = 0"
  proof -
    from inv that have "count_stones (board b) = 0"
      by (simp add: board_inv_def)
    moreover from inv have "(7::nat) < length (board b)" "(7::nat) < length (board b ! 7)"
      by (simp_all add: board_inv_def wf_grid_def list_all_length)
    ultimately have "board b ! 7 ! 7 = EMPTY"
      by (rule count_stones_0)
    then show ?thesis
      by (simp add: isValidMove_def BOARD_SIZE_def cell_def)
  qed
  with inv show ?thesis
    by (simp add: centre_free_def board_inv_def)
qed

lemma board_inv_new_Board: "board_inv new_Board"
  by (simp add: board_inv_def new_Board_def wf_grid_replicate count_stones_empty)

lemma centre_free_placeStone:
  "centre_free b \<Longrightarrow> isValidMove b r c \<Longrightarrow> centre_free (snd (placeStone r c stone b))"
  by (simp add: centre_free_def placeStone_valid)

lemma getRelevantMoves_set:
  "moveCount b \<noteq> 0 \<Longrightarrow> set (getRelevantMoves b R) = candidate_cells b R"
  using scan_all [of b R] around_candidates [of b R]
  by (simp add: getRelevantMoves_def)

lemma getRelevantMoves_valid:
  assumes "centre_free b"
  shows "valid_moves b (getRelevantMoves b R)"
proof (cases "moveCount b = 0")
  case True
  with assms show ?thesis
    by (simp add: valid_moves_def getRelevantMoves_def centre_free_def BOARD_SIZE_def)
next
  case False
  have "isValidMove b (row m) (col m)" if "m \<in> candidate_cells b R" for m
    using that by (auto simp: candidate_cells_def isValidMove_def in_range_def getStone_def)
  with False show ?thesis
    by (simp add: valid_moves_def list_all_iff getRelevantMoves_set)
qed

lemma valid_moves_Cons:
  "valid_moves b (m # ms) \<longleftrightarrow> isValidMove b (row m) (col m) \<and> valid_moves b ms"
  by (simp add: valid_moves_def)

lemma valid_moves_subset: "valid_moves b ms \<Longrightarrow> set ns \<subseteq> set ms \<Longrightarrow> valid_moves b ns"
  by (auto simp: valid_moves_def list_all_iff)

lemma win_or_block_frame: "valid_moves b moves \<Longrightarrow> snd (win_or_block ai moves b) = b"
proof (induction moves)
  case Nil
  show ?case by simp
next
  case (Cons m ms)
  then have v: "isValidMove b (row m) (col m)" and rest: "valid_moves b ms"
    by (simp_all add: valid_moves_Cons)
  have 1: "removeStone (row m) (col m) (snd (placeStone (row m) (col m) (myStone ai) b)) = b"
    by (rule removeStone_placeStone [OF v])
  have 2: "removeStone (row m) (col m) (snd (placeStone (row m) (col m) (opponentStone ai) b)) = b"
    by (rule removeStone_placeStone [OF v])
  from Cons.IH [OF rest] show ?case
    by (simp add: Let_def 1 2)
qed

lemma score_move_frame: "isValidMove b (row m) (col m) \<Longrightarrow> snd (score_move b stone m) = b"
  by (simp add: score_move_def Let_def removeStone_placeStone)

lemma score_moves_frame:
  "valid_moves b moves \<Longrightarrow>
   snd (score_moves stone moves scored b) = b \<and>
   map fst (fst (score_moves stone moves scored b)) = map fst scored @ moves"
proof (induction moves arbitrary: scored)
  case Nil
  show ?case by simp
next
  case (Cons m ms)
  then have v: "isValidMove b (row m) (col m)" and rest: "valid_moves b ms"
    by (simp_all add: valid_moves_Cons)
  obtain sc where sm: "score_move b stone m = (sc, b)"
    using score_move_frame [OF v, of stone] by (cases "score_move b stone m") simp
  from Cons.IH [OF rest, of "scored @ [(m, sc)]"] show ?case
    by (simp add: sm)
qed

lemma orderMoves_frame:
  assumes "valid_moves b moves"
  shows "snd (orderMoves b moves stone) = b \<and> valid_moves b (fst (orderMoves b moves stone))"
proof -
  obtain scored where sm: "score_moves stone moves [] b = (scored, b)" and
    keys: "map fst scored = moves"
    using score_moves_frame [OF assms, of stone "[]"]
    by (cases "score_moves stone moves [] b") simp
  have "set (take 10 (map fst (sort_key (\<lambda>ms. - snd ms) scored))) \<subseteq> set (map fst scored)"
    using set_take_subset [of 10 "map fst (sort_key (\<lambda>ms. - snd ms) scored)"] by simp
  with keys assms have "valid_moves b (take 10 (map fst (sort_key (\<lambda>ms. - snd ms) scored)))"
    by (auto intro: valid_moves_subset)
  then show ?thesis
    by (simp add: orderMoves_def sm)
qed

text \<open>One iteration of a loop of the search: the stone is placed on a valid move, the
  recursive call returns the board it was given, the stone is removed.\<close>

lemma minimax_frame:
  "centre_free b \<Longrightarrow> snd (minimax ai b depth alpha beta isMaximizing) = b"
  "centre_free b \<Longrightarrow> valid_moves b moves \<Longrightarrow>
   snd (max_loop ai moves depth alpha beta maxEval b) = b"
  "centre_free b \<Longrightarrow> valid_moves b moves \<Longrightarrow>
   snd (min_loop ai moves depth alpha beta minEval b) = b"
proof (induction ai b depth alpha beta isMaximizing
    and ai moves depth alpha beta maxEval b
    and ai moves depth alpha beta minEval b
    rule: minimax_max_loop_min_loop.induct)
  case (1 ai b depth alpha beta isMaximizing)
  let ?stone = "if isMaximizing then myStone ai else opponentStone ai"
  let ?moves = "getRelevantMoves b 2"
  have valid: "valid_moves b ?moves"
    by (rule getRelevantMoves_valid [OF "1.prems"])
  obtain ordered where om: "orderMoves b ?moves ?stone = (ordered, b)" and
    ov: "valid_moves b ordered"
    using orderMoves_frame [OF valid, of ?stone]
    by (cases "orderMoves b ?moves ?stone") simp
  show ?case
  proof (cases "checkWin b \<noteq> ONGOING \<or> depth \<ge> maxDepth ai \<or> ?moves = []")
    case True
    then show ?thesis
      by (subst minimax.simps) (auto simp: Let_def)
  next
    case False
    then have c: "\<not> checkWin b \<noteq> ONGOING" "\<not> maxDepth ai \<le> depth" "?moves \<noteq> []"
      by simp_all
    show ?thesis
    proof (cases isMaximizing)
      case True
      have "snd (max_loop ai ordered depth alpha beta (- INFINITY_SCORE) b) = b"
        using "1.IH"(1) [OF refl c(1,2) refl c(3) om [symmetric] True "1.prems" ov] .
      with c True om show ?thesis
        by (subst minimax.simps) (simp add: Let_def)
    next
      case False
      have "snd (min_loop ai ordered depth alpha beta INFINITY_SCORE b) = b"
        using "1.IH"(2) [OF refl c(1,2) refl c(3) om [symmetric] False "1.prems" ov] .
      with c False om show ?thesis
        by (subst minimax.simps) (simp add: Let_def)
    qed
  qed
next
  case (2 ai depth alpha beta maxEval b)
  show ?case by simp
next
  case (3 ai move moves depth alpha beta maxEval b)
  let ?b1 = "snd (placeStone (row move) (col move) (myStone ai) b)"
  from "3.prems"(2) have v: "isValidMove b (row move) (col move)" and rest: "valid_moves b moves"
    by (simp_all add: valid_moves_Cons)
  have cf: "centre_free ?b1"
    by (rule centre_free_placeStone [OF "3.prems"(1) v])
  obtain eval where mm: "minimax ai ?b1 (depth + 1) alpha beta False = (eval, ?b1)"
    using "3.IH"(1) [OF cf] by (cases "minimax ai ?b1 (depth + 1) alpha beta False") simp
  have undo: "removeStone (row move) (col move) ?b1 = b"
    by (rule removeStone_placeStone [OF v])
  show ?case
  proof (cases "beta \<le> max alpha eval")
    case True
    then show ?thesis
      by (simp add: mm undo Let_def)
  next
    case False
    have "snd (max_loop ai moves depth (max alpha eval) beta (max maxEval eval) b) = b"
      using "3.IH"(2) [OF mm [symmetric] undo [symmetric] refl refl False "3.prems"(1) rest] .
    with False show ?thesis
      by (simp add: mm undo Let_def)
  qed
next
  case (4 ai depth alpha beta minEval b)
  show ?case by simp
next
  case (5 ai move moves depth alpha beta minEval b)
  let ?b1 = "snd (placeStone (row move) (col move) (opponentStone ai) b)"
  from "5.prems"(2) have v: "isValidMove b (row move) (col move)" and rest: "valid_moves b moves"
    by (simp_all add: valid_moves_Cons)
  have cf: "centre_free ?b1"
    by (rule centre_free_placeStone [OF "5.prems"(1) v])
  obtain eval where mm: "minimax ai ?b1 (depth + 1) alpha beta True = (eval, ?b1)"
    using "5.IH"(1) [OF cf] by (cases "minimax ai ?b1 (depth + 1) alpha beta True") simp
  have undo: "removeStone (row move) (col move) ?b1 = b"
    by (rule removeStone_placeStone [OF v])
  show ?case
  proof (cases "min beta eval \<le> alpha")
    case True
    then show ?thesis
      by (simp add: mm undo Let_def)
  next
    case False
    have "snd (min_loop ai moves depth alpha (min beta eval) (min minEval eval) b) = b"
      using "5.IH"(2) [OF mm [symmetric] undo [symmetric] refl refl False "5.prems"(1) rest] .
    with False show ?thesis
      by (simp add: mm undo Let_def)
  qed
qed

lemma root_loop_frame:
  "centre_free b \<Longrightarrow> valid_moves b moves \<Longrightarrow>
   snd (root_loop ai draws k moves bestMove bestScore b) = b"
proof (induction moves arbitrary: k bestMove bestScore)
  case Nil
  show ?case by simp
next
  case (Cons m ms)
  let ?b1 = "snd (placeStone (row m) (col m) (myStone ai) b)"
  from Cons.prems(2) have v: "isValidMove b (row m) (col m)" and rest: "valid_moves b ms"
    by (simp_all add: valid_moves_Cons)
  have cf: "centre_free ?b1"
    by (rule centre_free_placeStone [OF Cons.prems(1) v])
  obtain score0 where
    mm: "minimax ai ?b1 1 (- INFINITY_SCORE) INFINITY_SCORE False = (score0, ?b1)"
    using minimax_frame(1) [OF cf, of ai 1 "- INFINITY_SCORE" INFINITY_SCORE False]
    by (cases "minimax ai ?b1 1 (- INFINITY_SCORE) INFINITY_SCORE False") simp
  have undo: "removeStone (row m) (col m) ?b1 = b"
    by (rule removeStone_placeStone [OF v])
  from Cons.IH [OF Cons.prems(1) rest] show ?case
    by (simp add: mm undo Let_def)
qed

lemma getBestMove_frame: "centre_free b \<Longrightarrow> snd (getBestMove ai draws b) = b"
proof -
  assume cf: "centre_free b"
  let ?moves = "getRelevantMoves b 2"
  have valid: "valid_moves b ?moves"
    by (rule getRelevantMoves_valid [OF cf])
  obtain found where wb: "win_or_block ai ?moves b = (found, b)"
    using win_or_block_frame [OF valid, of ai] by (cases "win_or_block ai ?moves b") simp
  obtain ordered where om: "orderMoves b ?moves (myStone ai) = (ordered, b)" and
    ov: "valid_moves b ordered"
    using orderMoves_frame [OF valid, of "myStone ai"]
    by (cases "orderMoves b ?moves (myStone ai)") simp
  have "snd (root_loop ai draws 0 ordered (hd ?moves) (- INFINITY_SCORE) b) = b"
    by (rule root_loop_frame [OF cf ov])
  then show ?thesis
    by (cases found) (simp_all add: getBestMove_def Let_def wb om)
qed

text \<open>
  C2. On every board that satisfies the invariant of the data model, for every side,
  depth and sequence of random numbers, \<open>getBestMove\<close> returns the board it was given:
  the grid, the move history and the move counter, on every path through the immediate
  win and block checks, the move ordering and the minimax search with its pruning.
\<close>

theorem getBestMove_leaves_board:
  "board_inv b \<Longrightarrow> snd (getBestMove ai draws b) = b"
  by (rule getBestMove_frame [OF board_inv_centre_free])

theorem getBestMove_leaves_board_witness:
  "board_inv new_Board \<and>
   snd (getBestMove (new_GomokuAI BLACK 6) (\<lambda>k. 0) new_Board) = new_Board"
  using getBestMove_leaves_board [OF board_inv_new_Board, of "new_GomokuAI BLACK 6" "\<lambda>k. 0"]
    board_inv_new_Board by simp

text \<open>
  The invariant is needed. \<open>removeStone\<close> at (0, 0) after the only move (7, 7) leaves a
  stone in the centre with the counter at 0 (C9). On that board the candidate is the
  centre itself, \<open>placeStone\<close> fails there, and the \<open>removeStone\<close> that follows erases
  the stone: \<open>getBestMove\<close> returns the empty board.
\<close>

definition stale_board :: Board where
  "stale_board = removeStone 0 0 (snd (placeStone 7 7 BLACK new_Board))"

lemma stale_board_eq:
  "stale_board =
     \<lparr> board = set_cell (replicate 15 (replicate 15 EMPTY)) 7 7 BLACK,
       moveHistory = [], moveCount = 0 \<rparr>"
  by code_simp

lemma stale_board_first_loop:
  "win_or_block ai [Position 7 7] stale_board = (None, new_Board)"
proof -
  have occupied: "\<not> isValidMove stale_board 7 7"
    by code_simp
  have 1: "checkWin stale_board = ONGOING"
    by code_simp
  have 2: "removeStone 7 7 stale_board = new_Board"
    by code_simp
  have "checkWin (snd (placeStone 7 7 EMPTY new_Board)) = ONGOING"
    and "checkWin (snd (placeStone 7 7 BLACK new_Board)) = ONGOING"
    and "checkWin (snd (placeStone 7 7 WHITE new_Board)) = ONGOING"
    by code_simp+
  then have 3: "checkWin (snd (placeStone 7 7 stone new_Board)) = ONGOING" for stone
    by (cases stone) simp_all
  show ?thesis
    by (simp add: placeStone_invalid [OF occupied] 1 2 3
        removeStone_placeStone [OF isValidMove_new_Board])
qed

lemma getBestMove_stale_board:
  "\<not> board_inv stale_board \<and> snd (getBestMove ai draws stale_board) = new_Board \<and>
   new_Board \<noteq> stale_board"
proof -
  have moves: "getRelevantMoves stale_board 2 = [Position 7 7]"
    by (simp add: getRelevantMoves_def stale_board_eq BOARD_SIZE_def)
  have cf: "centre_free new_Board"
    by (rule board_inv_centre_free [OF board_inv_new_Board])
  have valid: "valid_moves new_Board [Position 7 7]"
    by (simp add: valid_moves_def isValidMove_new_Board)
  obtain ordered where om: "orderMoves new_Board [Position 7 7] (myStone ai) = (ordered, new_Board)"
    and ov: "valid_moves new_Board ordered"
    using orderMoves_frame [OF valid, of "myStone ai"]
    by (cases "orderMoves new_Board [Position 7 7] (myStone ai)") simp
  have "snd (root_loop ai draws 0 ordered (Position 7 7) (- INFINITY_SCORE) new_Board) = new_Board"
    by (rule root_loop_frame [OF cf ov])
  moreover have "getBestMove ai draws stale_board =
      root_loop ai draws 0 ordered (Position 7 7) (- INFINITY_SCORE) new_Board"
    by (simp only: getBestMove_def Let_def moves stale_board_first_loop om
        list.distinct if_False prod.case option.case list.sel)
  ultimately have "snd (getBestMove ai draws stale_board) = new_Board"
    by simp
  moreover have "new_Board \<noteq> stale_board"
    by code_simp
  moreover have "\<not> board_inv stale_board"
    by code_simp
  ultimately show ?thesis
    by simp
qed

section \<open>The immediate win and block checks of getBestMove\<close>

text \<open>Boards for the examples are played from \<open>Board()\<close> through \<open>placeStone\<close>.\<close>

definition play :: "(Position \<times> Stone) list \<Rightarrow> Board" where
  "play ms = fold (\<lambda>(p, s) b. snd (placeStone (row p) (col p) s b)) ms new_Board"

lemma replay_reachable:
  "reachable b0 \<Longrightarrow> EMPTY \<notin> snd ` set ms \<Longrightarrow> replay ms b0 = Some b \<Longrightarrow> reachable b"
proof (induction ms arbitrary: b0)
  case Nil
  then show ?case by simp
next
  case (Cons m ms)
  obtain p s where m: "m = (p, s)" by (cases m)
  from Cons.prems(3) obtain b1 where
    pl: "placeStone (row p) (col p) s b0 = (True, b1)" and rest: "replay ms b1 = Some b"
    by (auto simp: m split: prod.splits bool.splits)
  from Cons.prems(2) have s: "s \<noteq> EMPTY" and e: "EMPTY \<notin> snd ` set ms"
    by (auto simp: m)
  have "reachable b1"
    by (rule reachable_place [OF Cons.prems(1) s pl])
  from Cons.IH [OF this e rest] show ?case .
qed

lemma win_or_block_found:
  "win_or_block ai xs b = (Some m, b') \<Longrightarrow> win_or_block ai (xs @ ys) b = (Some m, b')"
proof (induction xs arbitrary: b)
  case Nil
  then show ?case by simp
next
  case (Cons x xs)
  then show ?case
    by (auto simp: Let_def split: if_splits)
qed

text \<open>
  BLACK has played (7, 3) to (7, 6) and WHITE (0, 0) to (0, 3), in turn; BLACK is to
  move. (7, 2) and (7, 7) complete five for BLACK; (0, 4) completes five for WHITE.
\<close>

definition missed_win_moves :: "(Position \<times> Stone) list" where
  "missed_win_moves =
     [(Position 7 3, BLACK), (Position 0 0, WHITE), (Position 7 4, BLACK), (Position 0 1, WHITE),
      (Position 7 5, BLACK), (Position 0 2, WHITE), (Position 7 6, BLACK), (Position 0 3, WHITE)]"

definition missed_win_board :: Board where
  "missed_win_board = play missed_win_moves"

lemma missed_win_replay: "replay missed_win_moves new_Board = Some missed_win_board"
  by code_simp

lemma missed_win_reachable: "reachable missed_win_board"
  by (rule replay_reachable [OF reachable_new _ missed_win_replay])
    (simp add: missed_win_moves_def)

lemma missed_win_candidates:
  "getRelevantMoves missed_win_board 2 =
     [Position 1 0, Position 1 1, Position 1 2, Position 2 0, Position 2 1,
      Position 2 2, Position 1 3, Position 2 3, Position 0 4] @
     [Position 1 4,
      Position 2 4, Position 0 5, Position 1 5, Position 2 5, Position 5 1,
      Position 5 2, Position 5 3, Position 5 4, Position 5 5, Position 6 1,
      Position 6 2, Position 6 3, Position 6 4, Position 6 5, Position 7 1,
      Position 7 2, Position 8 1, Position 8 2, Position 8 3, Position 8 4,
      Position 8 5, Position 9 1, Position 9 2, Position 9 3, Position 9 4,
      Position 9 5, Position 5 6, Position 6 6, Position 8 6, Position 9 6,
      Position 5 7, Position 6 7, Position 7 7, Position 8 7, Position 9 7,
      Position 5 8, Position 6 8, Position 7 8, Position 8 8, Position 9 8]"
  by code_simp

lemma missed_win_first_return:
  "win_or_block (new_GomokuAI BLACK depth)
     [Position 1 0, Position 1 1, Position 1 2, Position 2 0, Position 2 1,
      Position 2 2, Position 1 3, Position 2 3, Position 0 4] missed_win_board =
   (Some (Position 0 4), missed_win_board)"
  by code_simp

lemma missed_win_wins:
  "checkWin (snd (placeStone 7 7 BLACK missed_win_board)) = BLACK_WIN"
  "checkWin (snd (placeStone 7 2 BLACK missed_win_board)) = BLACK_WIN"
  "checkWin (snd (placeStone 0 4 BLACK missed_win_board)) = ONGOING"
  "checkWin (snd (placeStone 0 4 WHITE missed_win_board)) = WHITE_WIN"
  "checkWin missed_win_board = ONGOING"
  by code_simp+

text \<open>
  C1, at this board. (7, 7) is a candidate and wins at once for BLACK, yet
  \<open>getBestMove\<close> for BLACK, at any depth and whatever the random numbers, returns (0, 4):
  the loop asks of each candidate in turn whether it wins and then whether it blocks,
  and (0, 4), which only blocks, comes before (7, 2) and (7, 7) among the candidates.
\<close>

theorem getBestMove_misses_win:
  "reachable missed_win_board \<and>
   checkWin missed_win_board = ONGOING \<and>
   Position 7 7 \<in> set (getRelevantMoves missed_win_board 2) \<and>
   checkWin (snd (placeStone 7 7 BLACK missed_win_board)) = BLACK_WIN \<and>
   fst (getBestMove (new_GomokuAI BLACK depth) draws missed_win_board) = Position 0 4 \<and>
   checkWin (snd (placeStone 0 4 BLACK missed_win_board)) = ONGOING"
proof -
  have "win_or_block (new_GomokuAI BLACK depth) (getRelevantMoves missed_win_board 2)
          missed_win_board = (Some (Position 0 4), missed_win_board)"
    unfolding missed_win_candidates by (rule win_or_block_found [OF missed_win_first_return])
  moreover have "getRelevantMoves missed_win_board 2 \<noteq> []"
    by (simp add: missed_win_candidates)
  ultimately have "fst (getBestMove (new_GomokuAI BLACK depth) draws missed_win_board) = Position 0 4"
    by (simp add: getBestMove_def Let_def)
  moreover have "Position 7 7 \<in> set (getRelevantMoves missed_win_board 2)"
    by (simp add: missed_win_candidates)
  ultimately show ?thesis
    using missed_win_reachable missed_win_wins by simp
qed

section \<open>The random factor of getBestMove\<close>

text \<open>The numbers drawn matter only modulo 10, and only as many as root moves are
  searched: at most the 10 that \<open>orderMoves\<close> keeps.\<close>

lemma root_loop_draws:
  assumes "\<forall>j. k \<le> j \<and> j < k + length moves \<longrightarrow> draws j mod 10 = draws' j mod 10"
  shows "root_loop ai draws k moves bestMove bestScore b =
         root_loop ai draws' k moves bestMove bestScore b"
  using assms
proof (induction moves arbitrary: k bestMove bestScore b)
  case Nil
  show ?case by simp
next
  case (Cons m ms)
  from Cons.prems have here: "draws k mod 10 = draws' k mod 10"
    by simp
  from Cons.prems
  have rest: "\<forall>j. Suc k \<le> j \<and> j < Suc k + length ms \<longrightarrow> draws j mod 10 = draws' j mod 10"
    by simp
  show ?case
    by (simp add: here Cons.IH [OF rest] Let_def split: prod.splits)
qed

lemma orderMoves_length: "length (fst (orderMoves b moves stone)) \<le> 10"
  by (simp add: orderMoves_def split: prod.splits)

lemma getBestMove_draws:
  assumes "\<forall>k < 10. draws k mod 10 = draws' k mod 10"
  shows "getBestMove ai draws b = getBestMove ai draws' b"
proof -
  let ?moves = "getRelevantMoves b 2"
  obtain found b' where wb: "win_or_block ai ?moves b = (found, b')"
    by (cases "win_or_block ai ?moves b")
  obtain ordered b'' where om: "orderMoves b' ?moves (myStone ai) = (ordered, b'')"
    by (cases "orderMoves b' ?moves (myStone ai)")
  from orderMoves_length [of b' ?moves "myStone ai"] have "length ordered \<le> 10"
    by (simp add: om)
  with assms
  have "root_loop ai draws 0 ordered (hd ?moves) (- INFINITY_SCORE) b'' =
        root_loop ai draws' 0 ordered (hd ?moves) (- INFINITY_SCORE) b''"
    by (intro root_loop_draws) simp
  then show ?thesis
    by (cases found) (simp_all add: getBestMove_def Let_def wb om)
qed

text \<open>
  One BLACK stone in the corner (0, 0), WHITE to move, depth 1. The eight candidates
  have the scores 4 for (2, 2), 3 for (1, 2) and (2, 1), 2 for (0, 2), (1, 1), (2, 0)
  and 1 for (0, 1), (1, 0); (2, 2) is searched first.
\<close>

definition corner_board :: Board where
  "corner_board = play [(Position 0 0, BLACK)]"

definition corner_ai :: GomokuAI where
  "corner_ai = new_GomokuAI WHITE 1"

text \<open>Two runs of the generator: every number 0; and 0 first, 9 from then on.\<close>

definition draws_zero :: "nat \<Rightarrow> nat" where
  "draws_zero k = 0"

definition draws_rising :: "nat \<Rightarrow> nat" where
  "draws_rising k = (if k = 0 then 0 else 9)"

text \<open>A third run, of other numbers that are 0 modulo 10.\<close>

definition draws_tens :: "nat \<Rightarrow> nat" where
  "draws_tens k = 10 * k"

lemma corner_reachable: "reachable corner_board"
proof -
  have "replay [(Position 0 0, BLACK)] new_Board = Some corner_board"
    by code_simp
  from replay_reachable [OF reachable_new _ this] show ?thesis
    by simp
qed

lemma corner_candidates:
  "getRelevantMoves corner_board 2 =
     [Position 0 1, Position 0 2, Position 1 0, Position 1 1, Position 1 2,
      Position 2 0, Position 2 1, Position 2 2]"
  by code_simp

lemma corner_no_win_or_block:
  "win_or_block corner_ai
     [Position 0 1, Position 0 2, Position 1 0, Position 1 1, Position 1 2,
      Position 2 0, Position 2 1, Position 2 2] corner_board = (None, corner_board)"
  by code_simp

lemma corner_ordered:
  "orderMoves corner_board
     [Position 0 1, Position 0 2, Position 1 0, Position 1 1, Position 1 2,
      Position 2 0, Position 2 1, Position 2 2] (myStone corner_ai) =
   ([Position 2 2, Position 1 2, Position 2 1, Position 0 2, Position 1 1,
     Position 2 0, Position 0 1, Position 1 0], corner_board)"
  by code_simp

lemma corner_status:
  "checkWin (snd (placeStone 2 2 WHITE corner_board)) = ONGOING"
  "checkWin (snd (placeStone 1 2 WHITE corner_board)) = ONGOING"
  "checkWin (snd (placeStone 2 1 WHITE corner_board)) = ONGOING"
  "checkWin (snd (placeStone 0 2 WHITE corner_board)) = ONGOING"
  "checkWin (snd (placeStone 1 1 WHITE corner_board)) = ONGOING"
  "checkWin (snd (placeStone 2 0 WHITE corner_board)) = ONGOING"
  "checkWin (snd (placeStone 0 1 WHITE corner_board)) = ONGOING"
  "checkWin (snd (placeStone 1 0 WHITE corner_board)) = ONGOING"
  by code_simp+

lemma corner_scores:
  "evaluatePosition (snd (placeStone 2 2 WHITE corner_board)) WHITE = 4"
  "evaluatePosition (snd (placeStone 1 2 WHITE corner_board)) WHITE = 3"
  "evaluatePosition (snd (placeStone 2 1 WHITE corner_board)) WHITE = 3"
  "evaluatePosition (snd (placeStone 0 2 WHITE corner_board)) WHITE = 2"
  "evaluatePosition (snd (placeStone 1 1 WHITE corner_board)) WHITE = 2"
  "evaluatePosition (snd (placeStone 2 0 WHITE corner_board)) WHITE = 2"
  "evaluatePosition (snd (placeStone 0 1 WHITE corner_board)) WHITE = 1"
  "evaluatePosition (snd (placeStone 1 0 WHITE corner_board)) WHITE = 1"
  by code_simp+

lemma corner_valid:
  "isValidMove corner_board 2 2" "isValidMove corner_board 1 2"
  "isValidMove corner_board 2 1" "isValidMove corner_board 0 2"
  "isValidMove corner_board 1 1" "isValidMove corner_board 2 0"
  "isValidMove corner_board 0 1" "isValidMove corner_board 1 0"
  by code_simp+

lemma corner_ai_stone: "myStone corner_ai = WHITE"
  by (simp add: corner_ai_def new_GomokuAI_def)

lemma corner_minimax:
  "checkWin b = ONGOING \<Longrightarrow>
   minimax corner_ai b 1 alpha beta isMaximizing = (evaluatePosition b WHITE, b)"
  by (subst minimax.simps) (simp add: corner_ai_def new_GomokuAI_def)

lemma corner_root_zero:
  "root_loop corner_ai draws_zero 0
     [Position 2 2, Position 1 2, Position 2 1, Position 0 2, Position 1 1,
      Position 2 0, Position 0 1, Position 1 0]
     (Position 0 1) (- INFINITY_SCORE) corner_board = (Position 2 2, corner_board)"
  by (simp add: corner_ai_stone corner_minimax corner_status corner_scores corner_valid
      removeStone_placeStone draws_zero_def INFINITY_SCORE_def)

lemma corner_root_rising:
  "root_loop corner_ai draws_rising 0
     [Position 2 2, Position 1 2, Position 2 1, Position 0 2, Position 1 1,
      Position 2 0, Position 0 1, Position 1 0]
     (Position 0 1) (- INFINITY_SCORE) corner_board = (Position 1 2, corner_board)"
  by (simp add: corner_ai_stone corner_minimax corner_status corner_scores corner_valid
      removeStone_placeStone draws_rising_def INFINITY_SCORE_def)

lemma corner_getBestMove:
  "getBestMove corner_ai draws corner_board =
   root_loop corner_ai draws 0
     [Position 2 2, Position 1 2, Position 2 1, Position 0 2, Position 1 1,
      Position 2 0, Position 0 1, Position 1 0]
     (Position 0 1) (- INFINITY_SCORE) corner_board"
  by (simp only: getBestMove_def Let_def corner_candidates corner_no_win_or_block corner_ordered
      list.distinct if_False prod.case option.case list.sel)

text \<open>
  C7 fails: on the same board at the same depth, the move depends on the numbers the
  generator yields. With every number 0 the move is (2, 2); with 9 after the first it is
  (1, 2).
\<close>

theorem getBestMove_depends_on_rng:
  "reachable corner_board \<and>
   fst (getBestMove corner_ai draws_zero corner_board) = Position 2 2 \<and>
   fst (getBestMove corner_ai draws_rising corner_board) = Position 1 2"
  by (simp only: corner_reachable corner_getBestMove corner_root_zero corner_root_rising
      fst_conv simp_thms)

text \<open>
  C7, amended. For a board and a depth, the move is a function of the numbers the
  generator yields during the call: two calls whose first ten numbers agree modulo 10
  return the same move (and leave the same board).
\<close>

theorem getBestMove_deterministic_in_draws:
  "(\<forall>k < 10. draws k mod 10 = draws' k mod 10) \<Longrightarrow>
   getBestMove ai draws b = getBestMove ai draws' b"
  by (rule getBestMove_draws)

theorem getBestMove_deterministic_in_draws_witness:
  "getBestMove corner_ai draws_zero corner_board = getBestMove corner_ai draws_tens corner_board"
proof -
  have "\<forall>k < 10. draws_zero k mod 10 = draws_tens k mod 10"
    by (simp add: draws_zero_def draws_tens_def)
  then show ?thesis
    by (rule getBestMove_deterministic_in_draws)
qed

end
